theory Spec2Isabelle
  imports Complex_Main "HOL-Library.Log_Nat"
begin

section \<open>Python values: errors, integers and binary64 floats\<close>

text \<open>
  The four scripts compute with Python's unbounded integers (\<^typ>\<open>int\<close>) and, in four
  places, with Python floats: \<^verbatim>\<open>nodes / fanout\<close> in \<^verbatim>\<open>estimate_tree\<close>,
  \<^verbatim>\<open>float(val)\<close> in \<^verbatim>\<open>metric_value\<close>, \<^verbatim>\<open>math.log\<close> in \<^verbatim>\<open>compute_layout\<close> and
  \<^verbatim>\<open>math.log2\<close> in \<^verbatim>\<open>generate_leaf_counts\<close>. A finite float is a rational number, so
  floats are modelled as \<^typ>\<open>rat\<close>: the true division of two integers and the conversion
  of an integer are correctly rounded to the nearest binary64 value, ties to even (as CPython
  does), and raise \<^verbatim>\<open>OverflowError\<close> when the rounded value does not fit. The two
  logarithms come from the platform's C library and are parameters of the model.
\<close>

datatype error =
    ValueError string
  | OverflowError
  | ZeroDivisionError
  | RuntimeError
  | SystemExit int

definition round_half_even :: "rat \<Rightarrow> int" where
  "round_half_even x =
     (let n = \<lfloor>x\<rfloor>; d = x - of_int n
      in if d < 1 / 2 then n else if 1 / 2 < d then n + 1 else if even n then n else n + 1)"

text \<open>For \<open>x > 0\<close>, the exponent \<open>e\<close> with \<open>2 ^ e \<le> x < 2 ^ (e + 1)\<close>.\<close>

definition floor_log2 :: "rat \<Rightarrow> int" where
  "floor_log2 x =
     (let d = bitlen (fst (quotient_of x)) - bitlen (snd (quotient_of x))
      in if x < 2 powi d then d - 1 else d)"

text \<open>
  Rounding a positive rational to binary64: 53 significant bits, the spacing of the
  subnormal numbers below \<open>2 ^ - 1022\<close>; the overflow test is in \<open>to_double\<close>.
\<close>

definition round_double :: "rat \<Rightarrow> rat" where
  "round_double x =
     (let e = max (floor_log2 x) (- 1022); u = 2 powi (e - 52)
      in of_int (round_half_even (x / u)) * u)"

definition double_overflow :: rat where
  "double_overflow = 2 ^ 1024"

definition to_double :: "rat \<Rightarrow> error + rat" where
  "to_double x =
     (let r = (if x < 0 then - round_double (- x) else if x = 0 then 0 else round_double x)
      in if double_overflow \<le> \<bar>r\<bar> then Inl OverflowError else Inr r)"

text \<open>\<^verbatim>\<open>a / b\<close> on two Python integers.\<close>

definition py_truediv :: "int \<Rightarrow> int \<Rightarrow> error + rat" where
  "py_truediv a b = (if b = 0 then Inl ZeroDivisionError else to_double (of_int a / of_int b))"

text \<open>\<^verbatim>\<open>float(v)\<close> on a Python integer.\<close>

definition py_float :: "int \<Rightarrow> error + rat" where
  "py_float v = to_double (of_int v)"

text \<open>\<^verbatim>\<open>math.ceil\<close>, \<^verbatim>\<open>float.is_integer\<close> and \<^verbatim>\<open>int\<close> on a finite float.\<close>

definition math_ceil :: "rat \<Rightarrow> int" where
  "math_ceil x = \<lceil>x\<rceil>"

definition is_integer :: "rat \<Rightarrow> bool" where
  "is_integer x = (of_int \<lfloor>x\<rfloor> = x)"

definition int_of_float :: "rat \<Rightarrow> int" where
  "int_of_float x = (if 0 \<le> x then \<lfloor>x\<rfloor> else \<lceil>x\<rceil>)"

section \<open>app.py: style catalog, tree shape, layout\<close>

record StyleProfile =
  style_key :: string
  style_name :: string
  style_hash_bytes :: int
  style_note :: string

definition aztec :: StyleProfile where
  "aztec = \<lparr>style_key = ''aztec'', style_name = ''Aztec-style privacy rollup'',
     style_hash_bytes = 32,
     style_note = ''Optimised for zk commitments over encrypted state roots.''\<rparr>"

definition zama :: StyleProfile where
  "zama = \<lparr>style_key = ''zama'', style_name = ''Zama-style FHE compute stack'',
     style_hash_bytes = 48,
     style_note = ''FHE-heavy designs often tolerate slightly larger commitments.''\<rparr>"

definition soundness :: StyleProfile where
  "soundness = \<lparr>style_key = ''soundness'', style_name = ''Soundness-first protocol lab'',
     style_hash_bytes = 32,
     style_note = ''Prefers simple, standard-sized commitments for verifiable semantics.''\<rparr>"

definition STYLES :: "string \<rightharpoonup> StyleProfile" where
  "STYLES = [''aztec'' \<mapsto> aztec, ''zama'' \<mapsto> zama, ''soundness'' \<mapsto> soundness]"

definition clamp_int :: "int \<Rightarrow> int \<Rightarrow> int \<Rightarrow> int" where
  "clamp_int x lo hi = max lo (min hi x)"

text \<open>The dictionary \<^verbatim>\<open>estimate_tree\<close> returns.\<close>

record tree =
  tree_height :: int
  tree_totalNodes :: int
  tree_nodesPerLevel :: "int list"

text \<open>
  The \<^verbatim>\<open>while nodes > 1\<close> loop of \<^verbatim>\<open>estimate_tree\<close>, with its four variables. The loop
  as written does not end for every argument (\<open>fanout = 1\<close>), so it is a partial function:
  \<open>None\<close> is "does not return".
\<close>

partial_function (option) estimate_loop ::
  "int \<Rightarrow> int \<Rightarrow> int \<Rightarrow> int \<Rightarrow> int list \<Rightarrow> (error + tree) option" where
  "estimate_loop fanout nodes height total_nodes per_level =
     (if nodes > 1 then
        (case py_truediv nodes fanout of
           Inl e \<Rightarrow> Some (Inl e)
         | Inr q \<Rightarrow>
             estimate_loop fanout (math_ceil q) (height + 1) (total_nodes + nodes)
               (per_level @ [nodes]))
      else Some (Inr \<lparr>tree_height = height, tree_totalNodes = total_nodes + nodes,
                      tree_nodesPerLevel = per_level @ [nodes]\<rparr>))"

definition estimate_tree :: "int \<Rightarrow> int \<Rightarrow> (error + tree) option" where
  "estimate_tree leaves fanout =
     (if leaves \<le> 0 then Some (Inl (ValueError ''leaves must be positive''))
      else if fanout \<notin> {2, 4, 8} then Some (Inl (ValueError ''fanout must be one of 2, 4, or 8''))
      else estimate_loop fanout leaves 0 0 [])"

text \<open>The dictionary \<^verbatim>\<open>build_layout\<close> returns.\<close>

record layout =
  layout_style :: string
  layout_styleName :: string
  layout_note :: string
  layout_leaves :: int
  layout_fanout :: int
  layout_treeHeight :: int
  layout_totalNodes :: int
  layout_nodesPerLevel :: "int list"
  layout_hashBytes :: int
  layout_proofBranchLength :: int
  layout_perProofBytes :: int
  layout_perProofBits :: int
  layout_totalCommitmentBytes :: int

definition build_layout :: "StyleProfile \<Rightarrow> int \<Rightarrow> int \<Rightarrow> (error + layout) option" where
  "build_layout style leaves fanout =
     (case estimate_tree leaves fanout of
        None \<Rightarrow> None
      | Some (Inl e) \<Rightarrow> Some (Inl e)
      | Some (Inr tree) \<Rightarrow>
          (let hash_bytes = style_hash_bytes style;
               proof_branch_length = tree_height tree;
               per_proof_bytes = (proof_branch_length + 1) * hash_bytes;
               per_proof_bits = per_proof_bytes * 8;
               total_commitment_bytes = tree_totalNodes tree * hash_bytes
           in Some (Inr \<lparr>layout_style = style_key style, layout_styleName = style_name style,
                 layout_note = style_note style, layout_leaves = leaves, layout_fanout = fanout,
                 layout_treeHeight = tree_height tree, layout_totalNodes = tree_totalNodes tree,
                 layout_nodesPerLevel = tree_nodesPerLevel tree, layout_hashBytes = hash_bytes,
                 layout_proofBranchLength = proof_branch_length,
                 layout_perProofBytes = per_proof_bytes, layout_perProofBits = per_proof_bits,
                 layout_totalCommitmentBytes = total_commitment_bytes\<rparr>)))"

text \<open>
  \<^verbatim>\<open>main\<close> of app.py up to the layout it prints: the command line gives a style key among
  the catalog's and a fanout among 2, 4, 8, and the leaf count is clamped to
  \<open>1 .. 10000000\<close>.
\<close>

definition app_main :: "int \<Rightarrow> string \<Rightarrow> int \<Rightarrow> (error + layout) option" where
  "app_main args_leaves args_style args_fanout =
     (let leaves = clamp_int args_leaves 1 10000000
      in case STYLES args_style of
           None \<Rightarrow> Some (Inl (SystemExit 2))
         | Some style \<Rightarrow>
             if args_fanout \<notin> {2, 4, 8} then Some (Inl (SystemExit 2))
             else build_layout style leaves args_fanout)"

section \<open>layout\_sizer.py: closed-form sizing\<close>

text \<open>The dictionary \<^verbatim>\<open>compute_layout\<close> returns.\<close>

record sizing =
  sizing_leaves :: int
  sizing_arity :: int
  sizing_height :: int
  sizing_fullLeaves :: int
  sizing_paddingLeaves :: int
  sizing_totalNodes :: int
  sizing_internalNodes :: int
  sizing_leafNodes :: int

text \<open>
  \<open>math_log leaves arity\<close> stands for the float \<^verbatim>\<open>math.log(leaves, arity)\<close>, which the
  C library computes as a quotient of two natural logarithms. It is not negative for
  \<open>leaves \<ge> 1\<close> and \<open>arity \<ge> 2\<close>, so \<open>height\<close> is not negative and \<^verbatim>\<open>**\<close> stays
  an integer power. Both guards print a message and call \<^verbatim>\<open>sys.exit(2)\<close>.
\<close>

definition compute_layout :: "(int \<Rightarrow> int \<Rightarrow> rat) \<Rightarrow> int \<Rightarrow> int \<Rightarrow> error + sizing" where
  "compute_layout math_log leaves arity =
     (if leaves \<le> 0 then Inl (SystemExit 2)
      else if arity \<le> 1 then Inl (SystemExit 2)
      else
        (let height = math_ceil (math_log leaves arity);
             full_leaves = arity ^ nat height;
             padding_leaves = full_leaves - leaves;
             total_nodes = (arity ^ nat (height + 1) - 1) div (arity - 1);
             internal_nodes = total_nodes - full_leaves
         in Inr \<lparr>sizing_leaves = leaves, sizing_arity = arity, sizing_height = height,
               sizing_fullLeaves = full_leaves, sizing_paddingLeaves = padding_leaves,
               sizing_totalNodes = total_nodes, sizing_internalNodes = internal_nodes,
               sizing_leafNodes = full_leaves\<rparr>))"

section \<open>choose\_best\_layout.py: selection by metric\<close>

text \<open>
  A candidate: the fanout and the dictionary parsed from app.py's JSON. Only the integer
  fields are kept, which is where the five metrics live; a key that is absent (or
  \<^verbatim>\<open>null\<close>) is \<open>None\<close>.
\<close>

record LayoutResult =
  result_fanout :: int
  result_data :: "string \<rightharpoonup> int"

definition METRICS :: "string list" where
  "METRICS = [''treeHeight'', ''totalNodes'', ''proofBranchLength'', ''perProofBytes'',
     ''totalCommitmentBytes'']"

text \<open>A Python float that may be \<^verbatim>\<open>float("inf")\<close>, and \<^verbatim>\<open><\<close> on two of them.\<close>

datatype pyfloat = Finite rat | Inf

fun float_less :: "pyfloat \<Rightarrow> pyfloat \<Rightarrow> bool" where
  "float_less (Finite a) (Finite b) = (a < b)"
| "float_less (Finite a) Inf = True"
| "float_less Inf b = False"

definition metric_value :: "(string \<rightharpoonup> int) \<Rightarrow> string \<Rightarrow> error + pyfloat" where
  "metric_value data metric =
     (case data metric of
        None \<Rightarrow> Inr Inf
      | Some val \<Rightarrow> (case py_float val of Inl e \<Rightarrow> Inl e | Inr x \<Rightarrow> Inr (Finite x)))"

text \<open>
  The built-in \<^verbatim>\<open>min(iterable, key=...)\<close>: it keeps the first item and replaces it only by
  an item whose key is strictly smaller; an exception of the key function ends it.
\<close>

fun min_loop :: "('a \<Rightarrow> error + pyfloat) \<Rightarrow> 'a \<Rightarrow> pyfloat \<Rightarrow> 'a list \<Rightarrow> error + 'a" where
  "min_loop key minitem minval [] = Inr minitem"
| "min_loop key minitem minval (item # rest) =
     (case key item of
        Inl e \<Rightarrow> Inl e
      | Inr val \<Rightarrow>
          if float_less val minval then min_loop key item val rest
          else min_loop key minitem minval rest)"

definition py_min :: "('a \<Rightarrow> error + pyfloat) \<Rightarrow> 'a list \<Rightarrow> error + 'a" where
  "py_min key items =
     (case items of
        [] \<Rightarrow> Inl (ValueError ''min() arg is an empty sequence'')
      | item # rest \<Rightarrow> (case key item of Inl e \<Rightarrow> Inl e | Inr val \<Rightarrow> min_loop key item val rest))"

text \<open>
  \<^verbatim>\<open>main\<close> of choose\_best\_layout.py up to \<^verbatim>\<open>best\<close>: \<open>run_app\<close> is the call of app.py
  for one fanout (a process, so a parameter here); a failed call is reported and skipped.
\<close>

definition collect_layouts :: "(int \<Rightarrow> error + (string \<rightharpoonup> int)) \<Rightarrow> int list \<Rightarrow> LayoutResult list" where
  "collect_layouts run_app fanouts =
     concat (map (\<lambda>f. case run_app f of
                         Inl e \<Rightarrow> []
                       | Inr data \<Rightarrow> [\<lparr>result_fanout = f, result_data = data\<rparr>]) fanouts)"

definition choose_best :: "LayoutResult list \<Rightarrow> string \<Rightarrow> error + LayoutResult" where
  "choose_best layouts metric =
     (if layouts = [] then Inl (SystemExit 1)
      else py_min (\<lambda>lr. metric_value (result_data lr) metric) layouts)"

definition choose_best_layout_main ::
  "(int \<Rightarrow> error + (string \<rightharpoonup> int)) \<Rightarrow> int list \<Rightarrow> string \<Rightarrow> error + LayoutResult" where
  "choose_best_layout_main run_app fanouts metric =
     choose_best (collect_layouts run_app fanouts) metric"

section \<open>sweep\_layouts.py: the leaf-count sequence\<close>

text \<open>
  The two loops of \<^verbatim>\<open>generate_leaf_counts\<close>. The second one does not end when
  \<open>step \<le> 0\<close>, so both are partial functions.
\<close>

partial_function (option) doubling_loop :: "int \<Rightarrow> int \<Rightarrow> int list \<Rightarrow> int list option" where
  "doubling_loop leaf_max n counts =
     (if n \<le> leaf_max then doubling_loop leaf_max (n * 2) (counts @ [n]) else Some counts)"

partial_function (option) power_loop :: "int \<Rightarrow> int \<Rightarrow> int \<Rightarrow> int list \<Rightarrow> int list option" where
  "power_loop end_pow step p counts =
     (if p \<le> end_pow then power_loop end_pow step (p + step) (counts @ [2 ^ nat p])
      else Some counts)"

text \<open>
  \<open>math_log2 n\<close> stands for the float \<^verbatim>\<open>math.log2(n)\<close> of a positive integer. It is not
  negative for \<open>n \<ge> 1\<close>, so \<^verbatim>\<open>2**p\<close> is an integer power.
\<close>

definition generate_leaf_counts ::
  "(int \<Rightarrow> rat) \<Rightarrow> int \<Rightarrow> int \<Rightarrow> int \<Rightarrow> (error + int list) option" where
  "generate_leaf_counts math_log2 leaf_min leaf_max step =
     (if leaf_min \<le> 0 \<or> leaf_max < leaf_min
      then Some (Inl (ValueError ''leaf-min must be > 0 and <= leaf-max''))
      else
        (let start_pow = math_log2 leaf_min;
             end_pow = math_log2 leaf_max
         in if \<not> is_integer start_pow \<or> \<not> is_integer end_pow
            then map_option Inr (doubling_loop leaf_max leaf_min [])
            else map_option Inr
                   (power_loop (int_of_float end_pow) step (int_of_float start_pow) [])))"

section \<open>Auxiliary notions for the proofs\<close>

text \<open>
  One pass of the level-reduction loop when the division does not overflow:
  \<^verbatim>\<open>math.ceil(nodes / fanout)\<close>.
\<close>

definition next_nodes :: "int \<Rightarrow> int \<Rightarrow> int" where
  "next_nodes fanout nodes = math_ceil (round_double (of_int nodes / of_int fanout))"

text \<open>
  \<open>is_first_min key xs i v\<close>: the item at index \<open>i\<close> has key \<open>v\<close>, no item has a
  smaller key, and every item before \<open>i\<close> has a larger one.
\<close>

definition is_first_min :: "('a \<Rightarrow> error + pyfloat) \<Rightarrow> 'a list \<Rightarrow> nat \<Rightarrow> pyfloat \<Rightarrow> bool" where
  "is_first_min key xs i v \<longleftrightarrow>
     i < length xs \<and> key (xs ! i) = Inr v \<and>
     (\<forall>j < length xs. \<exists>w. key (xs ! j) = Inr w \<and> \<not> float_less w v) \<and>
     (\<forall>j < i. \<exists>w. key (xs ! j) = Inr w \<and> float_less v w)"

text \<open>
  The leaf-count sequence in the spec's words. \<open>exact_log2 n\<close> is the exponent of a
  power of two, and \<open>is_power_of_two\<close> the test for one.
\<close>

definition exact_log2 :: "int \<Rightarrow> nat" where
  "exact_log2 n = nat (bitlen n - 1)"

definition is_power_of_two :: "int \<Rightarrow> bool" where
  "is_power_of_two n \<longleftrightarrow> n = 2 ^ exact_log2 n"

text \<open>
  When both ends are exact powers of two, the values \<open>2 ^ p\<close> for \<open>p\<close> starting at
  \<open>log2 leafMin\<close> and stepping by \<open>logStep\<close> while \<open>p \<le> log2 leafMax\<close>; otherwise
  the values obtained by repeated doubling from \<open>leafMin\<close> while they are at most
  \<open>leafMax\<close> (there are \<open>bitlen (leafMax div leafMin)\<close> of them, see
  \<open>doubling_count\<close> below).
\<close>

definition spec_leaf_counts :: "int \<Rightarrow> int \<Rightarrow> nat \<Rightarrow> int list" where
  "spec_leaf_counts leafMin leafMax logStep =
     (if is_power_of_two leafMin \<and> is_power_of_two leafMax
      then map (\<lambda>k. 2 ^ (exact_log2 leafMin + k * logStep))
             [0 ..< Suc ((exact_log2 leafMax - exact_log2 leafMin) div logStep)]
      else map (\<lambda>k. leafMin * 2 ^ k) [0 ..< nat (bitlen (leafMax div leafMin))])"

text \<open>
  \<open>log2_classifies math_log2 n\<close>: the float \<^verbatim>\<open>math.log2(n)\<close> is the exponent when \<open>n\<close>
  is a power of two and is not an integer otherwise. Binary64 floats do this for small
  \<open>n\<close> and cannot for large \<open>n\<close>: an integer above \<open>2 ^ 53\<close> is first rounded to a
  float.
\<close>

definition log2_classifies :: "(int \<Rightarrow> rat) \<Rightarrow> int \<Rightarrow> bool" where
  "log2_classifies math_log2 n \<longleftrightarrow>
     (if is_power_of_two n then math_log2 n = of_nat (exact_log2 n)
      else \<not> is_integer (math_log2 n))"

section \<open>Rounding to binary64\<close>

lemma pow2_less_iff: "(2::rat) powi m < 2 powi n \<longleftrightarrow> m < n"
proof
  assume "(2::rat) powi m < 2 powi n"
  show "m < n"
  proof (rule ccontr)
    assume "\<not> m < n"
    then have "(2::rat) powi n \<le> 2 powi m" by (intro power_int_increasing) auto
    with \<open>(2::rat) powi m < 2 powi n\<close> show False by simp
  qed
next
  assume "m < n"
  then show "(2::rat) powi m < 2 powi n" by (intro power_int_strict_increasing) auto
qed

lemma pow2_le_iff: "(2::rat) powi m \<le> 2 powi n \<longleftrightarrow> m \<le> n"
  using pow2_less_iff [of n m] by (auto simp: not_less [symmetric])

lemma pow2_add: "(2::rat) powi a * 2 powi b = 2 powi (a + b)"
  by (simp add: power_int_add)

lemma pow2_diff: "(2::rat) powi a / 2 powi b = 2 powi (a - b)"
  by (simp add: power_int_diff)

lemma pow2_add_eq: "a + b = c \<Longrightarrow> (2::rat) powi a * 2 powi b = 2 powi c"
  by (simp add: pow2_add)

lemma pow2_diff_eq: "a - b = c \<Longrightarrow> (2::rat) powi a / 2 powi b = 2 powi c"
  by (simp add: pow2_diff)

lemma bitlen_powi_bounds:
  assumes "0 < a"
  shows "(2::rat) powi (bitlen a - 1) \<le> of_int a" "of_int a < (2::rat) powi bitlen a"
proof -
  have ge1: "1 \<le> bitlen a" using assms bitlen_eq_zero_iff [of a] bitlen_nonneg [of a] by linarith
  from bitlen_bounds [OF assms]
  have lo: "2 ^ nat (bitlen a - 1) \<le> a" and hi: "a < 2 ^ nat (bitlen a)" by auto
  have "(of_int (2 ^ nat (bitlen a - 1)) :: rat) \<le> of_int a"
    using lo by (simp only: of_int_le_iff)
  then show "(2::rat) powi (bitlen a - 1) \<le> of_int a"
    using ge1 by (simp add: power_int_def)
  have "(of_int a :: rat) < of_int (2 ^ nat (bitlen a))"
    using hi by (simp only: of_int_less_iff)
  then show "of_int a < (2::rat) powi bitlen a"
    using ge1 by (simp add: power_int_def)
qed

lemma floor_log2_bounds:
  assumes "0 < x"
  shows "2 powi floor_log2 x \<le> x" "x < 2 powi (floor_log2 x + 1)"
proof -
  obtain a b where q: "quotient_of x = (a, b)" by force
  have bpos: "0 < b" using quotient_of_denom_pos [OF q] .
  have x: "x = of_int a / of_int b" using quotient_of_div [OF q] .
  have apos: "0 < a" using assms bpos x by (simp add: zero_less_divide_iff)
  define d where "d = bitlen a - bitlen b"
  have fl: "floor_log2 x = (if x < 2 powi d then d - 1 else d)"
    by (simp add: floor_log2_def q d_def Let_def)
  have b': "(0::rat) < of_int b" using bpos by simp
  have up: "x < 2 powi (d + 1)"
  proof -
    have "x * of_int b = of_int a" using x b' by simp
    also have "\<dots> < 2 powi bitlen a" by (rule bitlen_powi_bounds [OF apos])
    also have "\<dots> = 2 powi (d + 1) * 2 powi (bitlen b - 1)"
      by (simp add: d_def flip: power_int_add)
    also have "\<dots> \<le> 2 powi (d + 1) * of_int b"
      by (intro mult_left_mono bitlen_powi_bounds [OF bpos]) simp
    finally show ?thesis using b' by simp
  qed
  have lo: "2 powi (d - 1) \<le> x"
  proof -
    have "of_int b \<le> (2::rat) powi bitlen b"
      using bitlen_powi_bounds(2) [OF bpos] by simp
    then have "(2::rat) powi (d - 1) * of_int b \<le> 2 powi (d - 1) * 2 powi bitlen b"
      by (intro mult_left_mono) simp_all
    also have "\<dots> = 2 powi (bitlen a - 1)"
      by (simp add: d_def flip: power_int_add)
    also have "\<dots> \<le> of_int a" by (rule bitlen_powi_bounds [OF apos])
    also have "\<dots> = x * of_int b" using x b' by simp
    finally show ?thesis using b' by simp
  qed
  show "2 powi floor_log2 x \<le> x" using fl lo by (auto simp: not_less)
  show "x < 2 powi (floor_log2 x + 1)" using fl up by auto
qed

lemma floor_log2_unique:
  assumes "0 < x" "2 powi e \<le> x" "x < 2 powi (e + 1)"
  shows "floor_log2 x = e"
proof (rule antisym)
  have "(2::rat) powi floor_log2 x < 2 powi (e + 1)"
    using floor_log2_bounds(1) [OF assms(1)] assms(3) by (rule le_less_trans)
  then have "floor_log2 x < e + 1" by (simp add: pow2_less_iff)
  then show "floor_log2 x \<le> e" by simp
  have "(2::rat) powi e < 2 powi (floor_log2 x + 1)"
    using assms(2) floor_log2_bounds(2) [OF assms(1)] by (rule le_less_trans)
  then have "e < floor_log2 x + 1" by (simp add: pow2_less_iff)
  then show "e \<le> floor_log2 x" by simp
qed

lemma floor_log2_mono:
  assumes "0 < x" "x \<le> y"
  shows "floor_log2 x \<le> floor_log2 y"
proof -
  have "0 < y" using assms by simp
  have "(2::rat) powi floor_log2 x \<le> x" by (rule floor_log2_bounds [OF assms(1)])
  also have "x \<le> y" by fact
  also have "y < 2 powi (floor_log2 y + 1)" by (rule floor_log2_bounds [OF \<open>0 < y\<close>])
  finally have "floor_log2 x < floor_log2 y + 1" by (simp add: pow2_less_iff)
  then show ?thesis by simp
qed


lemma round_half_even_of_int: "round_half_even (of_int k) = k"
  by (simp add: round_half_even_def)

lemma round_half_even_range: "\<lfloor>x\<rfloor> \<le> round_half_even x" "round_half_even x \<le> \<lfloor>x\<rfloor> + 1"
  by (simp_all add: round_half_even_def Let_def)

lemma round_half_even_mono:
  assumes "x \<le> y"
  shows "round_half_even x \<le> round_half_even y"
proof (cases "\<lfloor>x\<rfloor> = \<lfloor>y\<rfloor>")
  case True
  with assms show ?thesis by (auto simp: round_half_even_def Let_def)
next
  case False
  then have "\<lfloor>x\<rfloor> + 1 \<le> \<lfloor>y\<rfloor>" using floor_mono [OF assms] by linarith
  with round_half_even_range(2) [of x] round_half_even_range(1) [of y] show ?thesis
    by linarith
qed

lemma scaled_round_upper:
  fixes x :: rat
  assumes "x \<le> 2 powi (e + 1)"
  shows "(of_int (round_half_even (x / 2 powi (e - 52))) :: rat) * 2 powi (e - 52) \<le> 2 powi (e + 1)"
proof -
  have "x / 2 powi (e - 52) \<le> 2 powi (e + 1) / 2 powi (e - 52)"
    using assms by (simp add: divide_right_mono)
  also have "\<dots> = (2::rat) powi 53"
    by (rule pow2_diff_eq) simp
  also have "\<dots> = of_int (2 ^ 53)" by simp
  finally have "round_half_even (x / 2 powi (e - 52)) \<le> round_half_even (of_int (2 ^ 53))"
    by (rule round_half_even_mono)
  then have "round_half_even (x / 2 powi (e - 52)) \<le> 2 ^ 53"
    by (simp only: round_half_even_of_int)
  then have "(of_int (round_half_even (x / 2 powi (e - 52))) :: rat) \<le> of_int (2 ^ 53)"
    by (simp only: of_int_le_iff)
  then have "of_int (round_half_even (x / 2 powi (e - 52))) * 2 powi (e - 52)
      \<le> (of_int (2 ^ 53) :: rat) * 2 powi (e - 52)"
    by (intro mult_right_mono) simp_all
  also have "(of_int (2 ^ 53) :: rat) * 2 powi (e - 52) = 2 powi 53 * 2 powi (e - 52)" by simp
  also have "\<dots> = 2 powi (e + 1)" by (rule pow2_add_eq) simp
  finally show ?thesis .
qed

lemma scaled_round_lower:
  fixes y :: rat
  assumes "2 powi e \<le> y"
  shows "(2::rat) powi e \<le> of_int (round_half_even (y / 2 powi (e - 52))) * 2 powi (e - 52)"
proof -
  have "(of_int (2 ^ 52) :: rat) = 2 powi 52" by simp
  also have "\<dots> = 2 powi e / 2 powi (e - 52)" by (rule pow2_diff_eq [symmetric]) simp
  also have "\<dots> \<le> y / 2 powi (e - 52)"
    using assms by (simp add: divide_right_mono)
  finally have "round_half_even (of_int (2 ^ 52)) \<le> round_half_even (y / 2 powi (e - 52))"
    by (rule round_half_even_mono)
  then have "2 ^ 52 \<le> round_half_even (y / 2 powi (e - 52))"
    by (simp only: round_half_even_of_int)
  then have "(of_int (2 ^ 52) :: rat) \<le> of_int (round_half_even (y / 2 powi (e - 52)))"
    by (simp only: of_int_le_iff)
  then have "(of_int (2 ^ 52) :: rat) * 2 powi (e - 52)
      \<le> of_int (round_half_even (y / 2 powi (e - 52))) * 2 powi (e - 52)"
    by (intro mult_right_mono) simp_all
  moreover have "(of_int (2 ^ 52) :: rat) * 2 powi (e - 52) = 2 powi 52 * 2 powi (e - 52)" by simp
  moreover have "(2::rat) powi 52 * 2 powi (e - 52) = 2 powi e" by (rule pow2_add_eq) simp
  ultimately show ?thesis by (simp only:)
qed

lemma round_double_unfold:
  "round_double x =
     of_int (round_half_even (x / 2 powi (max (floor_log2 x) (- 1022) - 52)))
       * 2 powi (max (floor_log2 x) (- 1022) - 52)"
  by (simp add: round_double_def Let_def)

lemma round_double_mono:
  assumes "0 < x" "x \<le> y"
  shows "round_double x \<le> round_double y"
proof -
  define ex where "ex = max (floor_log2 x) (- 1022)"
  define ey where "ey = max (floor_log2 y) (- 1022)"
  have ypos: "0 < y" using assms by simp
  have exy: "ex \<le> ey"
    using floor_log2_mono [OF assms] by (simp add: ex_def ey_def)
  have rx: "round_double x = of_int (round_half_even (x / 2 powi (ex - 52))) * 2 powi (ex - 52)"
    by (simp add: round_double_unfold ex_def)
  have ry: "round_double y = of_int (round_half_even (y / 2 powi (ey - 52))) * 2 powi (ey - 52)"
    by (simp add: round_double_unfold ey_def)
  show ?thesis
  proof (cases "ex = ey")
    case True
    have "x / 2 powi (ex - 52) \<le> y / 2 powi (ex - 52)"
      using assms(2) by (simp add: divide_right_mono)
    then have "round_half_even (x / 2 powi (ex - 52)) \<le> round_half_even (y / 2 powi (ex - 52))"
      by (rule round_half_even_mono)
    then have "(of_int (round_half_even (x / 2 powi (ex - 52))) :: rat)
        \<le> of_int (round_half_even (y / 2 powi (ex - 52)))"
      by (simp only: of_int_le_iff)
    then show ?thesis unfolding rx ry True [symmetric]
      by (intro mult_right_mono) simp_all
  next
    case False
    with exy have lt: "ex < ey" by simp
    then have ey_eq: "ey = floor_log2 y" by (auto simp: ex_def ey_def max_def split: if_splits)
    have "x < 2 powi (floor_log2 x + 1)" by (rule floor_log2_bounds [OF assms(1)])
    also have "\<dots> \<le> 2 powi (ex + 1)" by (simp add: pow2_le_iff ex_def)
    finally have "x \<le> 2 powi (ex + 1)" by simp
    then have "round_double x \<le> 2 powi (ex + 1)"
      unfolding rx by (rule scaled_round_upper)
    also have "\<dots> \<le> 2 powi ey" using lt by (simp add: pow2_le_iff)
    also have "\<dots> \<le> round_double y"
      unfolding ry using floor_log2_bounds(1) [OF ypos] ey_eq
      by (intro scaled_round_lower) simp
    finally show ?thesis .
  qed
qed

lemma round_double_exact:
  assumes "0 < m" "m < 2 ^ 53" "- 1074 \<le> j"
  shows "round_double (of_int m * 2 powi j) = of_int m * 2 powi j"
proof -
  define x :: rat where "x = of_int m * 2 powi j"
  define L where "L = bitlen m - 1"
  have xpos: "0 < x" using assms(1) by (simp add: x_def)
  have "bitlen m \<le> 53" using assms(2) by (simp add: bitlen_le_iff_power)
  then have L52: "L \<le> 52" by (simp add: L_def)
  have "(2::rat) powi (L + j) = 2 powi L * 2 powi j" by (simp add: power_int_add)
  also have "\<dots> \<le> x"
    unfolding x_def L_def using bitlen_powi_bounds(1) [OF assms(1)]
    by (intro mult_right_mono) simp_all
  finally have lo: "2 powi (L + j) \<le> x" .
  have "x < 2 powi (L + 1) * 2 powi j"
    unfolding x_def L_def using bitlen_powi_bounds(2) [OF assms(1)]
    by (intro mult_strict_right_mono) simp_all
  also have "\<dots> = 2 powi (L + j + 1)" by (simp add: power_int_add)
  finally have hi: "x < 2 powi (L + j + 1)" .
  have fl: "floor_log2 x = L + j" by (rule floor_log2_unique [OF xpos lo hi])
  define e where "e = max (L + j) (- 1022)"
  define t where "t = j - e + 52"
  have t0: "0 \<le> t" using L52 assms(3) by (auto simp: t_def e_def max_def)
  have "x / 2 powi (e - 52) = of_int m * (2 powi j / 2 powi (e - 52))" by (simp add: x_def)
  also have "2 powi j / 2 powi (e - 52) = (2::rat) powi t"
    by (rule pow2_diff_eq) (simp add: t_def)
  also have "of_int m * (2::rat) powi t = of_int (m * 2 ^ nat t)"
    using t0 by (simp add: power_int_def)
  finally have sc: "x / 2 powi (e - 52) = of_int (m * 2 ^ nat t)" .
  have "round_double x = of_int (round_half_even (x / 2 powi (e - 52))) * 2 powi (e - 52)"
    by (simp add: round_double_unfold fl e_def)
  also have "\<dots> = of_int (m * 2 ^ nat t) * 2 powi (e - 52)"
    by (simp only: sc round_half_even_of_int)
  also have "\<dots> = of_int m * (2 powi t * 2 powi (e - 52))"
    using t0 by (simp add: power_int_def)
  also have "2 powi t * 2 powi (e - 52) = (2::rat) powi j"
    by (rule pow2_add_eq) (simp add: t_def)
  finally show ?thesis by (simp add: x_def)
qed

lemma round_double_pow2:
  assumes "- 1074 \<le> k"
  shows "round_double (2 powi k) = 2 powi k"
  using round_double_exact [of 1 k] assms by simp

lemma round_double_nonneg:
  assumes "0 < x"
  shows "0 \<le> round_double x"
proof -
  have "0 \<le> x / 2 powi (max (floor_log2 x) (- 1022) - 52)"
    using assms by simp
  then have "0 \<le> \<lfloor>x / 2 powi (max (floor_log2 x) (- 1022) - 52)\<rfloor>" by simp
  with round_half_even_range(1) [of "x / 2 powi (max (floor_log2 x) (- 1022) - 52)"]
  have "0 \<le> round_half_even (x / 2 powi (max (floor_log2 x) (- 1022) - 52))" by linarith
  then show ?thesis by (simp add: round_double_unfold)
qed

lemma to_double_pos:
  assumes "0 < x"
  shows "to_double x =
           (if double_overflow \<le> round_double x then Inl OverflowError else Inr (round_double x))"
proof -
  have "\<not> x < 0" "x \<noteq> 0" using assms by simp_all
  moreover have "\<bar>round_double x\<bar> = round_double x"
    using round_double_nonneg [OF assms] by simp
  ultimately show ?thesis by (simp add: to_double_def Let_def)
qed

lemma py_truediv_pos:
  assumes "0 < n" "0 < f"
  shows "py_truediv n f =
           (if double_overflow \<le> round_double (of_int n / of_int f) then Inl OverflowError
            else Inr (round_double (of_int n / of_int f)))"
proof -
  have pos: "(0::rat) < of_int n / of_int f" using assms by simp
  have "f \<noteq> 0" using assms by simp
  then show ?thesis by (simp add: py_truediv_def to_double_pos [OF pos])
qed

lemma quotient_le_half:
  assumes "1 < n" "2 \<le> f"
  shows "(of_int n :: rat) / of_int f \<le> of_int n / 2"
proof -
  have "(2::rat) \<le> of_int f" using assms(2) by simp
  moreover have "(0::rat) \<le> of_int n" using assms(1) by simp
  ultimately show ?thesis by (intro divide_left_mono) simp_all
qed

lemma next_nodes_less:
  assumes "1 < n" "2 \<le> f"
  shows "next_nodes f n < n"
proof -
  define L where "L = bitlen (n - 1)"
  have pos: "0 < n - 1" using assms by simp
  have L1: "1 \<le> L" using pos bitlen_eq_zero_iff [of "n - 1"] bitlen_nonneg [of "n - 1"]
    by (simp add: L_def)
  from bitlen_bounds [OF pos]
  have lo: "2 ^ nat (L - 1) \<le> n - 1" and hi: "n - 1 < 2 ^ nat L" by (auto simp: L_def)
  have "n \<le> 2 ^ nat L" using hi by simp
  then have "(of_int n :: rat) \<le> of_int (2 ^ nat L)" by (simp only: of_int_le_iff)
  also have "(of_int (2 ^ nat L) :: rat) = 2 powi L" using L1 by (simp add: power_int_def)
  finally have "(of_int n :: rat) / 2 \<le> 2 powi L / 2 powi 1" by (simp add: divide_right_mono)
  also have "(2::rat) powi L / 2 powi 1 = 2 powi (L - 1)" by (rule pow2_diff_eq) simp
  finally have half: "(of_int n :: rat) / 2 \<le> 2 powi (L - 1)" .
  have xpos: "(0::rat) < of_int n / of_int f" using assms by simp
  have "of_int n / of_int f \<le> (2::rat) powi (L - 1)"
    using quotient_le_half [OF assms] half by (rule order_trans)
  then have "round_double (of_int n / of_int f) \<le> round_double (2 powi (L - 1))"
    by (rule round_double_mono [OF xpos])
  also have "\<dots> = 2 powi (L - 1)" using L1 by (intro round_double_pow2) simp
  also have "\<dots> = of_int (2 ^ nat (L - 1))" using L1 by (simp add: power_int_def)
  also have "\<dots> \<le> of_int (n - 1)" using lo by (simp only: of_int_le_iff)
  finally have "\<lceil>round_double (of_int n / of_int f)\<rceil> \<le> n - 1"
    by (simp only: ceiling_le_iff)
  then show ?thesis by (simp add: next_nodes_def math_ceil_def)
qed

lemma next_nodes_pos:
  assumes "1 \<le> n" "0 < f" "f \<le> 8"
  shows "1 \<le> next_nodes f n"
proof -
  have fr: "(0::rat) < of_int f" "(of_int f :: rat) \<le> 8" using assms by simp_all
  have "(1::rat) \<le> of_int n" using assms(1) by simp
  then have "(1::rat) / 8 \<le> of_int n / 8" by simp
  also have "\<dots> \<le> of_int n / of_int f"
    using fr assms(1) by (intro divide_left_mono) simp_all
  finally have "(2::rat) powi (- 3) \<le> of_int n / of_int f" by (simp add: power_int_minus)
  then have "round_double (2 powi (- 3)) \<le> round_double (of_int n / of_int f)"
    by (intro round_double_mono) simp_all
  moreover have "round_double (2 powi (- 3)) = 2 powi (- 3)" by (intro round_double_pow2) simp
  moreover have "(0::rat) < 2 powi (- 3)" by simp
  ultimately have "0 < round_double (of_int n / of_int f)" by linarith
  then have "0 < \<lceil>round_double (of_int n / of_int f)\<rceil>" by simp
  then show ?thesis by (simp add: next_nodes_def math_ceil_def)
qed

lemma next_nodes_mono:
  assumes "1 \<le> m" "m \<le> n" "0 < f1" "f1 \<le> f2"
  shows "next_nodes f2 m \<le> next_nodes f1 n"
proof -
  have r: "(0::rat) < of_int m" "(of_int m :: rat) \<le> of_int n" "(0::rat) < of_int f1"
    "(of_int f1 :: rat) \<le> of_int f2"
    using assms by simp_all
  have "(of_int m :: rat) / of_int f2 \<le> of_int m / of_int f1"
    using r by (intro divide_left_mono) simp_all
  also have "\<dots> \<le> of_int n / of_int f1"
    using r by (intro divide_right_mono) simp_all
  finally have le: "(of_int m :: rat) / of_int f2 \<le> of_int n / of_int f1" .
  have "(0::rat) < of_int m / of_int f2" using assms by simp
  from round_double_mono [OF this le] show ?thesis
    by (simp add: next_nodes_def math_ceil_def ceiling_mono)
qed

lemma no_overflow:
  assumes "1 < n" "n \<le> 2 ^ 1024" "2 \<le> f"
  shows "round_double (of_int n / of_int f) < double_overflow"
proof -
  have xpos: "(0::rat) < of_int n / of_int f" using assms by simp
  have "(of_int n :: rat) \<le> of_int (2 ^ 1024)" using assms(2) by (simp only: of_int_le_iff)
  then have "(of_int n :: rat) / 2 \<le> 2 powi 1024 / 2 powi 1" by (simp add: divide_right_mono)
  also have "(2::rat) powi 1024 / 2 powi 1 = 2 powi 1023" by (rule pow2_diff_eq) simp
  finally have "of_int n / of_int f \<le> (2::rat) powi 1023"
    using quotient_le_half [OF assms(1,3)] by (rule order_trans [rotated])
  then have "round_double (of_int n / of_int f) \<le> round_double (2 powi 1023)"
    by (rule round_double_mono [OF xpos])
  also have "\<dots> = 2 powi 1023" by (intro round_double_pow2) simp
  also have "\<dots> < 2 powi 1024" by (simp only: pow2_less_iff)
  finally show ?thesis by (simp add: double_overflow_def)
qed

lemma round_double_quotient_exact:
  assumes "1 \<le> n" "n \<le> 2 ^ 53" "f \<in> {2, 4, 8}"
  shows "round_double (of_int n / of_int f) = of_int n / of_int f"
proof -
  obtain k :: int where k: "1 \<le> k" "k \<le> 3" "(of_int f :: rat) = 2 powi k"
    using assms(3) by (elim insertE emptyE) (force intro: that [of 1], force intro: that [of 2], force intro: that [of 3])
  have q: "(of_int n :: rat) / of_int f = of_int n * 2 powi (- k)"
    by (simp add: k power_int_minus divide_inverse)
  show ?thesis
  proof (cases "n = 2 ^ 53")
    case True
    have "(of_int n :: rat) * 2 powi (- k) = 2 powi 53 * 2 powi (- k)" by (simp add: True)
    also have "\<dots> = 2 powi (53 - k)" by (rule pow2_add_eq) simp
    finally have "(of_int n :: rat) / of_int f = 2 powi (53 - k)" using q by simp
    then show ?thesis using k by (simp add: round_double_pow2)
  next
    case False
    then have "n < 2 ^ 53" using assms(2) by simp
    then show ?thesis unfolding q using assms(1) k by (intro round_double_exact) simp_all
  qed
qed

lemma next_nodes_exact:
  assumes "1 \<le> n" "n \<le> 2 ^ 53" "f \<in> {2, 4, 8}"
  shows "next_nodes f n = \<lceil>(of_int n :: rat) / of_int f\<rceil>"
  by (simp add: next_nodes_def math_ceil_def round_double_quotient_exact [OF assms])

section \<open>The level-reduction loop\<close>

lemma estimate_loop_done:
  "nodes \<le> 1 \<Longrightarrow>
   estimate_loop fanout nodes height total_nodes per_level =
     Some (Inr \<lparr>tree_height = height, tree_totalNodes = total_nodes + nodes,
                tree_nodesPerLevel = per_level @ [nodes]\<rparr>)"
  by (subst estimate_loop.simps) simp

lemma estimate_loop_step:
  assumes "1 < nodes" "0 < fanout"
  shows "estimate_loop fanout nodes height total_nodes per_level =
     (if double_overflow \<le> round_double (of_int nodes / of_int fanout)
      then Some (Inl OverflowError)
      else estimate_loop fanout (next_nodes fanout nodes) (height + 1) (total_nodes + nodes)
             (per_level @ [nodes]))"
proof -
  have "0 < nodes" using assms by simp
  from py_truediv_pos [OF this assms(2)] assms(1) show ?thesis
    by (subst estimate_loop.simps) (simp add: next_nodes_def)
qed

lemma valid_fanout: "fanout \<in> {2, 4, 8} \<Longrightarrow> 0 < fanout \<and> 2 \<le> fanout \<and> fanout \<le> (8::int)"
  by auto

lemma nodes_induct [consumes 2, case_names root level]:
  assumes "fanout \<in> {2, 4, 8}" "1 \<le> nodes"
    and root: "P 1"
    and level: "\<And>n. 1 < n \<Longrightarrow> 1 \<le> next_nodes fanout n \<Longrightarrow> next_nodes fanout n < n \<Longrightarrow>
        P (next_nodes fanout n) \<Longrightarrow> P n"
  shows "P nodes"
  using assms(2)
proof (induction "nat nodes" arbitrary: nodes rule: less_induct)
  case less
  note f = valid_fanout [OF assms(1)]
  show ?case
  proof (cases "nodes = 1")
    case True
    then show ?thesis by (simp add: root)
  next
    case False
    with less.prems have n: "1 < nodes" by simp
    have lt: "next_nodes fanout nodes < nodes" using n f by (simp add: next_nodes_less)
    have ge: "1 \<le> next_nodes fanout nodes" using less.prems f by (simp add: next_nodes_pos)
    have "P (next_nodes fanout nodes)"
      using lt ge by (intro less.hyps) simp_all
    with n ge lt show ?thesis by (rule level)
  qed
qed

lemma estimate_loop_terminates:
  assumes "fanout \<in> {2, 4, 8}" "1 \<le> nodes"
  shows "\<exists>r. estimate_loop fanout nodes h t pl = Some r"
proof -
  have "\<forall>h t pl. \<exists>r. estimate_loop fanout nodes h t pl = Some r"
    using assms
  proof (induction rule: nodes_induct)
    case root
    show ?case by (simp add: estimate_loop_done)
  next
    case (level n)
    then show ?case
      using valid_fanout [OF assms(1)] by (simp add: estimate_loop_step)
  qed
  then show ?thesis by blast
qed

lemma estimate_loop_returns:
  assumes "fanout \<in> {2, 4, 8}" "1 \<le> nodes" "nodes \<le> 2 ^ 1024"
  shows "\<exists>tr. estimate_loop fanout nodes h t pl = Some (Inr tr)"
proof -
  have "nodes \<le> 2 ^ 1024 \<longrightarrow> (\<forall>h t pl. \<exists>tr. estimate_loop fanout nodes h t pl = Some (Inr tr))"
    using assms(1,2)
  proof (induction rule: nodes_induct)
    case root
    show ?case by (simp add: estimate_loop_done)
  next
    case (level n)
    note f = valid_fanout [OF assms(1)]
    show ?case
    proof (intro impI allI)
      fix h t pl
      assume le: "n \<le> 2 ^ 1024"
      have "round_double (of_int n / of_int fanout) < double_overflow"
        using level.hyps(1) le f by (intro no_overflow) simp_all
      moreover have "next_nodes fanout n \<le> 2 ^ 1024"
        using level.hyps(3) le by linarith
      ultimately show "\<exists>tr. estimate_loop fanout n h t pl = Some (Inr tr)"
        using level.IH level.hyps(1) f by (simp add: estimate_loop_step)
    qed
  qed
  with assms(3) show ?thesis by blast
qed


lemma estimate_tree_valid:
  "1 \<le> leaves \<Longrightarrow> fanout \<in> {2, 4, 8} \<Longrightarrow>
   estimate_tree leaves fanout = estimate_loop fanout leaves 0 0 []"
  by (auto simp: estimate_tree_def)



lemma estimate_loop_bounds:
  assumes "fanout \<in> {2, 4, 8}" "1 \<le> nodes" "estimate_loop fanout nodes h t pl = Some (Inr r)"
  shows "h \<le> tree_height r \<and> t + nodes \<le> tree_totalNodes r"
proof -
  have "\<forall>h t pl r. estimate_loop fanout nodes h t pl = Some (Inr r) \<longrightarrow>
          h \<le> tree_height r \<and> t + nodes \<le> tree_totalNodes r"
    using assms(1,2)
  proof (induction rule: nodes_induct)
    case root
    show ?case by (auto simp: estimate_loop_done)
  next
    case (level n)
    note f = valid_fanout [OF assms(1)]
    show ?case
    proof (intro allI impI)
      fix h t pl r
      assume "estimate_loop fanout n h t pl = Some (Inr r)"
      then have "estimate_loop fanout (next_nodes fanout n) (h + 1) (t + n) (pl @ [n]) = Some (Inr r)"
        using level.hyps(1) f by (simp add: estimate_loop_step split: if_splits)
      with level.IH have "h + 1 \<le> tree_height r \<and> t + n + next_nodes fanout n \<le> tree_totalNodes r"
        by blast
      with level.hyps(2) show "h \<le> tree_height r \<and> t + n \<le> tree_totalNodes r" by linarith
    qed
  qed
  with assms(3) show ?thesis by blast
qed

lemma estimate_loop_compare:
  assumes "fanout1 \<in> {2, 4, 8}" "fanout2 \<in> {2, 4, 8}" "fanout1 \<le> fanout2" "1 \<le> n"
  shows "\<forall>m h1 t1 p1 h2 t2 p2 r1 r2. 1 \<le> m \<and> m \<le> n \<and>
          estimate_loop fanout1 n h1 t1 p1 = Some (Inr r1) \<and>
          estimate_loop fanout2 m h2 t2 p2 = Some (Inr r2) \<longrightarrow>
          tree_height r2 - h2 \<le> tree_height r1 - h1 \<and>
          tree_totalNodes r2 - t2 \<le> tree_totalNodes r1 - t1"
  using assms(1,4)
proof (induction rule: nodes_induct)
  case root
  show ?case by (auto simp: estimate_loop_done)
next
  case (level n)
  note f1 = valid_fanout [OF assms(1)]
  note f2 = valid_fanout [OF assms(2)]
  show ?case
  proof (intro allI impI, elim conjE)
    fix m h1 t1 p1 h2 t2 p2 r1 r2
    assume m: "1 \<le> m" "m \<le> n"
      and r1: "estimate_loop fanout1 n h1 t1 p1 = Some (Inr r1)"
      and r2: "estimate_loop fanout2 m h2 t2 p2 = Some (Inr r2)"
    from r1 have r1': "estimate_loop fanout1 (next_nodes fanout1 n) (h1 + 1) (t1 + n) (p1 @ [n]) = Some (Inr r1)"
      using level.hyps(1) f1 by (simp add: estimate_loop_step split: if_splits)
    from estimate_loop_bounds [OF assms(1) level.hyps(2) r1']
    have b1: "h1 + 1 \<le> tree_height r1" "t1 + n + next_nodes fanout1 n \<le> tree_totalNodes r1"
      by simp_all
    show "tree_height r2 - h2 \<le> tree_height r1 - h1 \<and>
          tree_totalNodes r2 - t2 \<le> tree_totalNodes r1 - t1"
    proof (cases "m = 1")
      case True
      with r2 have "tree_height r2 = h2" "tree_totalNodes r2 = t2 + 1"
        by (auto simp: estimate_loop_done)
      with b1 level.hyps(1,2) show ?thesis by simp
    next
      case False
      with m have m1: "1 < m" by simp
      from r2 have r2': "estimate_loop fanout2 (next_nodes fanout2 m) (h2 + 1) (t2 + m) (p2 @ [m]) = Some (Inr r2)"
        using m1 f2 by (simp add: estimate_loop_step split: if_splits)
      have "1 \<le> next_nodes fanout2 m" using m f2 by (simp add: next_nodes_pos)
      moreover have "next_nodes fanout2 m \<le> next_nodes fanout1 n"
        using m f1 assms(3) by (intro next_nodes_mono) simp_all
      ultimately have "tree_height r2 - (h2 + 1) \<le> tree_height r1 - (h1 + 1) \<and>
          tree_totalNodes r2 - (t2 + m) \<le> tree_totalNodes r1 - (t1 + n)"
        using level.IH r1' r2' by blast
      with m show ?thesis by linarith
    qed
  qed
qed

lemma estimate_loop_exact_step:
  assumes "1 < n" "n \<le> 2 ^ 53" "fanout \<in> {2, 4, 8}"
  shows "estimate_loop fanout n h t pl =
           estimate_loop fanout (- (- n div fanout)) (h + 1) (t + n) (pl @ [n])"
proof -
  note f = valid_fanout [OF assms(3)]
  have n1: "1 \<le> n" using assms(1) by simp
  have "n \<le> 2 ^ 1024" using assms(2) by (rule order_trans) simp
  then have no: "round_double (of_int n / of_int fanout) < double_overflow"
    using assms(1) f by (intro no_overflow) simp_all
  have "next_nodes fanout n = - (- n div fanout)"
    by (simp add: next_nodes_exact [OF n1 assms(2,3)] ceiling_divide_eq_div)
  then show ?thesis using no assms(1) f by (simp add: estimate_loop_step)
qed







lemma estimate_tree_million: "estimate_tree 1000000 2 =
  Some (Inr \<lparr>tree_height = 20, tree_totalNodes = 2000007, tree_nodesPerLevel = [1000000, 500000, 250000, 125000, 62500, 31250, 15625, 7813, 3907, 1954, 977, 489, 245, 123, 62, 31, 16, 8, 4, 2, 1]\<rparr>)"
  by (simp add: estimate_tree_def estimate_loop_exact_step estimate_loop_done)

text \<open>
  What app.py's \<^verbatim>\<open>main\<close> can pass on: a catalog style, whose hash size is positive, and
  a leaf count clamped to \<open>1 .. 10000000\<close>, for which a layout is always returned.
\<close>

lemma STYLES_hash_positive:
  assumes "STYLES key = Some style"
  shows "0 < style_hash_bytes style"
  using assms by (auto simp: STYLES_def aztec_def zama_def soundness_def split: if_splits)

lemma app_main_returns:
  assumes "STYLES args_style = Some style" "args_fanout \<in> {2, 4, 8}"
  shows "\<exists>r. app_main args_leaves args_style args_fanout = Some (Inr r) \<and>
           1 \<le> layout_leaves r \<and> layout_leaves r \<le> 10000000"
proof -
  define leaves where "leaves = clamp_int args_leaves 1 10000000"
  have range: "1 \<le> leaves" "leaves \<le> 10000000" by (simp_all add: leaves_def clamp_int_def)
  have "leaves \<le> 2 ^ 1024" using range(2) by (rule order_trans) simp
  from estimate_loop_returns [OF assms(2) range(1) this, of 0 0 "[]"]
  obtain t where "estimate_tree leaves args_fanout = Some (Inr t)"
    by (auto simp: estimate_tree_valid [OF range(1) assms(2)])
  then show ?thesis
    using assms range by (simp add: app_main_def build_layout_def Let_def leaves_def [symmetric])
qed

section \<open>The built-in min\<close>

lemma float_less_trans1: "float_less a b \<Longrightarrow> \<not> float_less c b \<Longrightarrow> float_less a c"
  by (cases a; cases b; cases c) auto

lemma float_less_irrefl: "\<not> float_less a a"
  by (cases a) auto

lemma is_first_min_snoc_keep:
  assumes "is_first_min key pre k v" "key item = Inr w" "\<not> float_less w v"
  shows "is_first_min key (pre @ [item]) k v"
  using assms unfolding is_first_min_def
  by (auto simp: nth_append less_Suc_eq)

lemma float_less_trans2: "float_less a b \<Longrightarrow> \<not> float_less c b \<Longrightarrow> \<not> float_less c a"
  by (cases a; cases b; cases c) auto

lemma is_first_min_snoc_new:
  assumes "is_first_min key pre k v" "key item = Inr w" "float_less w v"
  shows "is_first_min key (pre @ [item]) (length pre) w"
proof -
  have below: "\<exists>u. key (pre ! j) = Inr u \<and> float_less w u \<and> \<not> float_less u w"
    if "j < length pre" for j
  proof -
    from assms(1) that obtain u where "key (pre ! j) = Inr u" "\<not> float_less u v"
      unfolding is_first_min_def by blast
    with assms(3) show ?thesis
      by (auto intro: float_less_trans1 dest: float_less_trans2)
  qed
  show ?thesis
    unfolding is_first_min_def
    using assms(2) below by (auto simp: nth_append less_Suc_eq float_less_irrefl)
qed

lemma min_loop_first_min:
  "is_first_min key pre k v \<Longrightarrow> min_loop key (pre ! k) v rest = Inr b \<Longrightarrow>
   \<exists>i v'. is_first_min key (pre @ rest) i v' \<and> (pre @ rest) ! i = b"
proof (induction rest arbitrary: pre k v)
  case Nil
  then show ?case by auto
next
  case (Cons item rest)
  from Cons.prems(2) obtain w where w: "key item = Inr w"
    by (auto split: sum.splits)
  show ?case
  proof (cases "float_less w v")
    case True
    have inv: "is_first_min key (pre @ [item]) (length pre) w"
      by (rule is_first_min_snoc_new [OF Cons.prems(1) w True])
    have "min_loop key ((pre @ [item]) ! length pre) w rest = Inr b"
      using Cons.prems(2) w True by simp
    from Cons.IH [OF inv this] show ?thesis by simp
  next
    case False
    have inv: "is_first_min key (pre @ [item]) k v"
      by (rule is_first_min_snoc_keep [OF Cons.prems(1) w False])
    have "k < length pre" using Cons.prems(1) by (simp add: is_first_min_def)
    then have "min_loop key ((pre @ [item]) ! k) v rest = Inr b"
      using Cons.prems(2) w False by (simp add: nth_append)
    from Cons.IH [OF inv this] show ?thesis by simp
  qed
qed

lemma py_min_first_min:
  assumes "py_min key items = Inr b"
  shows "\<exists>i v. is_first_min key items i v \<and> items ! i = b"
proof (cases items)
  case Nil
  with assms show ?thesis by (simp add: py_min_def)
next
  case (Cons item rest)
  with assms obtain v where v: "key item = Inr v" and loop: "min_loop key item v rest = Inr b"
    by (auto simp: py_min_def split: sum.splits)
  have "is_first_min key [item] 0 v"
    using v by (simp add: is_first_min_def float_less_irrefl)
  from min_loop_first_min [OF this] loop Cons show ?thesis by simp
qed



section \<open>Metric values and the selection\<close>

lemma to_double_exact:
  assumes "\<bar>v\<bar> \<le> 2 ^ 53"
  shows "to_double (of_int v) = Inr (of_int v)"
proof -
  have rd: "round_double (of_int m) = of_int m" if "0 < m" "m \<le> 2 ^ 53" for m :: int
  proof (cases "m = 2 ^ 53")
    case True
    have "round_double (2 powi 53) = 2 powi 53" by (intro round_double_pow2) simp
    then show ?thesis by (simp add: True)
  next
    case False
    with that have "m < 2 ^ 53" by simp
    from round_double_exact [OF that(1) this, of 0] show ?thesis by simp
  qed
  have small: "\<not> double_overflow \<le> \<bar>of_int m :: rat\<bar>" if "\<bar>m\<bar> \<le> 2 ^ 53" for m :: int
  proof -
    have "\<bar>of_int m :: rat\<bar> = of_int \<bar>m\<bar>" by simp
    also have "\<dots> \<le> of_int (2 ^ 53)" using that by (simp only: of_int_le_iff)
    also have "\<dots> < double_overflow" by (simp add: double_overflow_def)
    finally show ?thesis by simp
  qed
  consider "v < 0" | "v = 0" | "0 < v" by linarith
  then show ?thesis
  proof cases
    case 1
    then have "round_double (- of_int v) = - of_int v"
      using rd [of "- v"] assms by simp
    with 1 small [OF assms] show ?thesis by (simp add: to_double_def Let_def)
  next
    case 2
    then show ?thesis by (simp add: to_double_def double_overflow_def)
  next
    case 3
    then have "round_double (of_int v) = of_int v" using rd [of v] assms by simp
    with 3 small [OF assms] show ?thesis by (simp add: to_double_def Let_def)
  qed
qed

lemma py_float_exact: "\<bar>v\<bar> \<le> 2 ^ 53 \<Longrightarrow> py_float v = Inr (of_int v)"
  by (simp add: py_float_def to_double_exact)

lemma metric_value_absent: "data metric = None \<Longrightarrow> metric_value data metric = Inr Inf"
  by (simp add: metric_value_def)

lemma metric_value_present:
  "data metric = Some val \<Longrightarrow> metric_value data metric = Inr w \<Longrightarrow> \<exists>x. w = Finite x"
  by (auto simp: metric_value_def split: sum.splits)

lemma metric_value_exact:
  "data metric = Some val \<Longrightarrow> \<bar>val\<bar> \<le> 2 ^ 53 \<Longrightarrow>
   metric_value data metric = Inr (Finite (of_int val))"
  by (simp add: metric_value_def py_float_exact)

lemma choose_best_first_min:
  assumes "choose_best layouts metric = Inr best"
  shows "\<exists>i v. is_first_min (\<lambda>lr. metric_value (result_data lr) metric) layouts i v \<and>
           layouts ! i = best"
proof -
  from assms have "py_min (\<lambda>lr. metric_value (result_data lr) metric) layouts = Inr best"
    by (simp add: choose_best_def split: if_splits)
  then show ?thesis by (rule py_min_first_min)
qed

text \<open>
  Up to \<open>2 ^ 53\<close> the float key is the integer field itself, so the selected candidate
  also has the least integer field.
\<close>

lemma choose_best_integer_minimum:
  assumes "choose_best layouts metric = Inr best"
    and "\<forall>lr \<in> set layouts. \<forall>val. result_data lr metric = Some val \<longrightarrow> \<bar>val\<bar> \<le> 2 ^ 53"
    and "result_data best metric = Some a" "lr \<in> set layouts" "result_data lr metric = Some b"
  shows "a \<le> b"
proof -
  from choose_best_first_min [OF assms(1)] obtain i v where
    fm: "is_first_min (\<lambda>lr. metric_value (result_data lr) metric) layouts i v" and b: "layouts ! i = best"
    by blast
  then have bi: "best \<in> set layouts" by (auto simp: is_first_min_def)
  have va: "metric_value (result_data best) metric = Inr (Finite (of_int a))"
    using assms(2,3) bi by (intro metric_value_exact) auto
  have vb: "metric_value (result_data lr) metric = Inr (Finite (of_int b))"
    using assms(2,4,5) by (intro metric_value_exact) auto
  have "v = Finite (of_int a)" using fm b va by (simp add: is_first_min_def)
  moreover obtain j where "j < length layouts" "layouts ! j = lr"
    using assms(4) by (auto simp: in_set_conv_nth)
  ultimately have "\<not> float_less (Finite (of_int b)) (Finite (of_int a))"
    using fm vb unfolding is_first_min_def by fastforce
  then show ?thesis by simp
qed

section \<open>The leaf-count loops\<close>

lemma bitlen_1: "bitlen 1 = 1"
  by (subst compute_bitlen) simp

lemma exact_log2_power [simp]: "exact_log2 (2 ^ k) = k"
  using bitlen_pow2 [of 1 k] by (simp add: exact_log2_def bitlen_1)

lemma is_power_of_two_power [simp]: "is_power_of_two (2 ^ k)"
  by (simp add: is_power_of_two_def)

lemma is_power_of_two_iff: "is_power_of_two n \<longleftrightarrow> (\<exists>k. n = 2 ^ k)"
  by (metis is_power_of_two_def is_power_of_two_power)

lemma power_loop_eq:
  assumes "1 \<le> step"
  shows "power_loop end_pow step p counts =
           Some (counts @ map (\<lambda>k. 2 ^ nat (p + int k * step))
                            [0 ..< nat ((end_pow - p) div step + 1)])"
proof (induction "nat (end_pow - p + 1)" arbitrary: p counts rule: less_induct)
  case less
  show ?case
  proof (cases "p \<le> end_pow")
    case False
    then have "(end_pow - p) div step < 0" using assms by (simp add: pos_imp_zdiv_neg_iff)
    then have "nat ((end_pow - p) div step + 1) = 0" by simp
    with False show ?thesis by (subst power_loop.simps) simp
  next
    case True
    have q: "(end_pow - (p + step)) div step = (end_pow - p) div step - 1"
    proof -
      have "end_pow - (p + step) = (end_pow - p) + (- 1) * step" by simp
      also have "\<dots> div step = (end_pow - p) div step + (- 1)"
        using assms by (subst div_mult_self1) simp_all
      finally show ?thesis by simp
    qed
    have nn: "0 \<le> (end_pow - p) div step" using True assms by (simp add: pos_imp_zdiv_nonneg_iff)
    define c where "c = nat ((end_pow - p) div step)"
    have c1: "nat ((end_pow - p) div step + 1) = Suc c" using nn by (simp add: c_def)
    have c2: "nat ((end_pow - (p + step)) div step + 1) = c" using nn by (simp add: q c_def)
    have "power_loop end_pow step p counts = power_loop end_pow step (p + step) (counts @ [2 ^ nat p])"
      using True by (subst power_loop.simps) simp
    also have "\<dots> = Some ((counts @ [2 ^ nat p]) @ map (\<lambda>k. 2 ^ nat (p + step + int k * step)) [0 ..< c])"
      using True assms by (subst less.hyps) (simp_all add: c2)
    also have "(counts @ [2 ^ nat p]) @ map (\<lambda>k. 2 ^ nat (p + step + int k * step)) [0 ..< c]
        = counts @ map (\<lambda>k. 2 ^ nat (p + int k * step)) [0 ..< Suc c]"
      by (simp add: map_upt_Suc algebra_simps del: upt_Suc)
    finally show ?thesis by (simp only: c1)
  qed
qed

lemma doubling_loop_eq:
  assumes "1 \<le> n"
  shows "doubling_loop leaf_max n counts =
           Some (counts @ map (\<lambda>k. n * 2 ^ k) [0 ..< nat (bitlen (leaf_max div n))])"
  using assms
proof (induction "nat (leaf_max - n + 1)" arbitrary: n counts rule: less_induct)
  case less
  show ?case
  proof (cases "n \<le> leaf_max")
    case False
    then have "\<not> 0 < leaf_max div n"
      using less.prems by (simp add: pos_imp_zdiv_pos_iff)
    then have "leaf_max div n \<le> 0" by simp
    then have "bitlen (leaf_max div n) = 0" by (simp add: bitlen_eq_zero_iff)
    with False show ?thesis by (subst doubling_loop.simps) simp
  next
    case True
    have pos: "0 < leaf_max div n" using True less.prems by (simp add: pos_imp_zdiv_pos_iff)
    have "leaf_max div (n * 2) = leaf_max div n div 2" by (simp add: zdiv_zmult2_eq)
    then have b: "bitlen (leaf_max div n) = bitlen (leaf_max div (n * 2)) + 1"
      using pos by (subst compute_bitlen) simp
    define c where "c = nat (bitlen (leaf_max div (n * 2)))"
    have c1: "nat (bitlen (leaf_max div n)) = Suc c"
      using bitlen_nonneg [of "leaf_max div (n * 2)"] by (simp add: b c_def)
    have "doubling_loop leaf_max n counts = doubling_loop leaf_max (n * 2) (counts @ [n])"
      using True by (subst doubling_loop.simps) simp
    also have "\<dots> = Some ((counts @ [n]) @ map (\<lambda>k. n * 2 * 2 ^ k) [0 ..< c])"
      using True less.prems by (subst less.hyps) (simp_all add: c_def)
    also have "(counts @ [n]) @ map (\<lambda>k. n * 2 * 2 ^ k) [0 ..< c]
        = counts @ map (\<lambda>k. n * 2 ^ k) [0 ..< Suc c]"
      by (simp add: map_upt_Suc algebra_simps del: upt_Suc)
    finally show ?thesis by (simp only: c1)
  qed
qed

lemma doubling_count:
  assumes "1 \<le> n"
  shows "k < nat (bitlen (leaf_max div n)) \<longleftrightarrow> n * 2 ^ k \<le> leaf_max"
proof -
  have n0: "0 < n" using assms by simp
  have "k < nat (bitlen (leaf_max div n)) \<longleftrightarrow> \<not> bitlen (leaf_max div n) \<le> int k"
    by auto
  also have "\<dots> \<longleftrightarrow> 2 ^ k \<le> leaf_max div n"
    by (simp add: bitlen_le_iff_power not_less)
  also have "\<dots> \<longleftrightarrow> n * 2 ^ k \<le> leaf_max"
  proof
    assume "2 ^ k \<le> leaf_max div n"
    then have "n * 2 ^ k \<le> n * (leaf_max div n)" using n0 by simp
    also have "\<dots> \<le> n * (leaf_max div n) + leaf_max mod n"
      using pos_mod_sign [OF n0, of leaf_max] by linarith
    also have "\<dots> = leaf_max" by simp
    finally show "n * 2 ^ k \<le> leaf_max" .
  next
    assume "n * 2 ^ k \<le> leaf_max"
    then have "(n * 2 ^ k) div n \<le> leaf_max div n" using n0 by (intro zdiv_mono1)
    then show "2 ^ k \<le> leaf_max div n" using n0 by simp
  qed
  finally show ?thesis .
qed

lemma is_integer_of_nat: "is_integer (of_nat a)"
  by (simp add: is_integer_def)

lemma int_of_float_of_nat: "int_of_float (of_nat a) = int a"
  by (simp add: int_of_float_def)

lemma exact_log2_mono:
  assumes "is_power_of_two m" "is_power_of_two n" "m \<le> n"
  shows "exact_log2 m \<le> exact_log2 n"
proof -
  from assms have "(2::int) ^ exact_log2 m \<le> 2 ^ exact_log2 n"
    by (simp add: is_power_of_two_def)
  then show ?thesis by simp
qed

lemma power_count:
  assumes "a \<le> b"
  shows "nat ((int b - int a) div int s + 1) = Suc ((b - a) div s)"
proof -
  have "int ((b - a) div s) = int (b - a) div int s" by (rule zdiv_int)
  also have "int (b - a) = int b - int a" using assms by simp
  finally have "(int b - int a) div int s = int ((b - a) div s)" by (rule sym)
  then show ?thesis by simp
qed

lemma generate_leaf_counts_powers:
  assumes "1 \<le> leaf_min" "leaf_min \<le> leaf_max" "0 < s"
    and "is_power_of_two leaf_min" "is_power_of_two leaf_max"
    and "log2_classifies math_log2 leaf_min" "log2_classifies math_log2 leaf_max"
  shows "generate_leaf_counts math_log2 leaf_min leaf_max (int s) =
           Some (Inr (spec_leaf_counts leaf_min leaf_max s))"
proof -
  define a where "a = exact_log2 leaf_min"
  define b where "b = exact_log2 leaf_max"
  have la: "math_log2 leaf_min = of_nat a" and lb: "math_log2 leaf_max = of_nat b"
    using assms(4-7) by (simp_all add: log2_classifies_def a_def b_def)
  have ab: "a \<le> b" unfolding a_def b_def using assms(4,5,2) by (rule exact_log2_mono)
  have ex: "nat (int a + int k * int s) = a + k * s" for k
    by (simp add: nat_add_distrib nat_mult_distrib)
  have "generate_leaf_counts math_log2 leaf_min leaf_max (int s) =
      map_option Inr (power_loop (int b) (int s) (int a) [])"
    using assms(1,2)
    by (simp add: generate_leaf_counts_def la lb is_integer_of_nat int_of_float_of_nat)
  also have "\<dots> = Some (Inr (map (\<lambda>k. 2 ^ (a + k * s)) [0 ..< Suc ((b - a) div s)]))"
    using assms(3) by (subst power_loop_eq) (simp_all add: power_count [OF ab] ex del: upt_Suc)
  also have "map (\<lambda>k. 2 ^ (a + k * s)) [0 ..< Suc ((b - a) div s)] = spec_leaf_counts leaf_min leaf_max s"
    using assms(4,5) by (simp add: spec_leaf_counts_def a_def b_def del: upt_Suc)
  finally show ?thesis .
qed

lemma generate_leaf_counts_doubling:
  assumes "1 \<le> leaf_min" "leaf_min \<le> leaf_max"
    and "\<not> (is_power_of_two leaf_min \<and> is_power_of_two leaf_max)"
    and "log2_classifies math_log2 leaf_min" "log2_classifies math_log2 leaf_max"
  shows "generate_leaf_counts math_log2 leaf_min leaf_max step =
           Some (Inr (spec_leaf_counts leaf_min leaf_max s))"
proof -
  have "\<not> is_integer (math_log2 leaf_min) \<or> \<not> is_integer (math_log2 leaf_max)"
    using assms(3-5) by (auto simp: log2_classifies_def)
  then have "generate_leaf_counts math_log2 leaf_min leaf_max step =
      map_option Inr (doubling_loop leaf_max leaf_min [])"
    using assms(1,2) by (simp add: generate_leaf_counts_def)
  also have "\<dots> = Some (Inr (map (\<lambda>k. leaf_min * 2 ^ k) [0 ..< nat (bitlen (leaf_max div leaf_min))]))"
    using assms(1) by (subst doubling_loop_eq) simp_all
  finally show ?thesis using assms(3) by (auto simp: spec_leaf_counts_def)
qed

lemma generate_leaf_counts_spec:
  assumes "1 \<le> leaf_min" "leaf_min \<le> leaf_max" "1 \<le> step"
    and "log2_classifies math_log2 leaf_min" "log2_classifies math_log2 leaf_max"
  shows "generate_leaf_counts math_log2 leaf_min leaf_max step =
           Some (Inr (spec_leaf_counts leaf_min leaf_max (nat step)))"
proof (cases "is_power_of_two leaf_min \<and> is_power_of_two leaf_max")
  case True
  have "0 < nat step" using assms(3) by simp
  from generate_leaf_counts_powers [OF assms(1,2) this _ _ assms(4,5)] True assms(3)
  show ?thesis by simp
next
  case False
  from generate_leaf_counts_doubling [OF assms(1,2) False assms(4,5)] show ?thesis .
qed

lemma spec_leaf_counts_in_range:
  assumes "1 \<le> leaf_min" "leaf_min \<le> leaf_max" "0 < s" "c \<in> set (spec_leaf_counts leaf_min leaf_max s)"
  shows "leaf_min \<le> c \<and> c \<le> leaf_max"
proof (cases "is_power_of_two leaf_min \<and> is_power_of_two leaf_max")
  case True
  define a where "a = exact_log2 leaf_min"
  define b where "b = exact_log2 leaf_max"
  have ab: "a \<le> b" unfolding a_def b_def using True assms(2) by (intro exact_log2_mono) simp_all
  have mn: "leaf_min = 2 ^ a" and mx: "leaf_max = 2 ^ b"
    using True by (simp_all add: is_power_of_two_def a_def b_def)
  from assms(4) True have "c \<in> set (map (\<lambda>k. 2 ^ (a + k * s)) [0 ..< Suc ((b - a) div s)])"
    by (simp add: spec_leaf_counts_def a_def b_def del: upt_Suc)
  then have "c \<in> (\<lambda>k. 2 ^ (a + k * s)) ` {0 ..< Suc ((b - a) div s)}"
    by (simp only: set_map set_upt)
  then obtain k where "k \<in> {0 ..< Suc ((b - a) div s)}" and c: "c = 2 ^ (a + k * s)"
    by (rule imageE)
  then have k: "k \<le> (b - a) div s" by simp
  have "k * s \<le> (b - a) div s * s" using k by simp
  also have "\<dots> \<le> b - a" by (rule div_times_less_eq_dividend)
  finally have "a + k * s \<le> b" using ab by simp
  then have "(2::int) ^ (a + k * s) \<le> 2 ^ b" by simp
  moreover have "(2::int) ^ a \<le> 2 ^ (a + k * s)" by simp
  ultimately show ?thesis by (simp add: c mn mx)
next
  case False
  with assms(4) have "c \<in> set (map (\<lambda>k. leaf_min * 2 ^ k) [0 ..< nat (bitlen (leaf_max div leaf_min))])"
    by (auto simp: spec_leaf_counts_def)
  then have "c \<in> (\<lambda>k. leaf_min * 2 ^ k) ` {0 ..< nat (bitlen (leaf_max div leaf_min))}"
    by (simp only: set_map set_upt)
  then obtain k where "k \<in> {0 ..< nat (bitlen (leaf_max div leaf_min))}" and c: "c = leaf_min * 2 ^ k"
    by (rule imageE)
  then have k: "k < nat (bitlen (leaf_max div leaf_min))" by simp
  have "leaf_min * 2 ^ k \<le> leaf_max" using k doubling_count [OF assms(1)] by simp
  moreover have "leaf_min * 1 \<le> leaf_min * 2 ^ k"
    using assms(1) by (intro mult_left_mono) simp_all
  ultimately show ?thesis by (simp add: c)
qed

lemma generate_leaf_counts_in_range:
  assumes "1 \<le> leaf_min" "leaf_min \<le> leaf_max" "1 \<le> step"
    and "log2_classifies math_log2 leaf_min" "log2_classifies math_log2 leaf_max"
  shows "\<exists>counts. generate_leaf_counts math_log2 leaf_min leaf_max step = Some (Inr counts) \<and>
           (\<forall>c \<in> set counts. leaf_min \<le> c \<and> c \<le> leaf_max)"
  using generate_leaf_counts_spec [OF assms] spec_leaf_counts_in_range [OF assms(1,2), of "nat step"]
    assms(3) by auto

lemma upt_0_2: "[0..<2] = [0, Suc 0]"
  by (simp add: numeral_2_eq_2)

lemma upt_0_4: "[0..<4] = [0, 1, 2, 3]"
  by (simp add: upt_rec)

lemma generate_leaf_counts_example:
  assumes "math_log2 1024 = 10" "math_log2 65536 = 16"
  shows "generate_leaf_counts math_log2 1024 65536 2 = Some (Inr [1024, 4096, 16384, 65536])"
proof -
  have e: "math_log2 (2 ^ 10) = of_nat 10" "math_log2 (2 ^ 16) = of_nat 16"
    using assms by simp_all
  have c: "log2_classifies math_log2 (2 ^ 10)" "log2_classifies math_log2 (2 ^ 16)"
    unfolding log2_classifies_def using e
    by (simp_all only: is_power_of_two_power exact_log2_power if_True)
  have "generate_leaf_counts math_log2 (2 ^ 10) (2 ^ 16) 2 =
      Some (Inr (spec_leaf_counts (2 ^ 10) (2 ^ 16) (nat 2)))"
    using c by (intro generate_leaf_counts_spec) simp_all
  also have "spec_leaf_counts (2 ^ 10) (2 ^ 16) (nat 2) =
      map (\<lambda>k. 2 ^ (10 + k * 2)) [0 ..< 4]"
    unfolding spec_leaf_counts_def
    by (simp only: is_power_of_two_power exact_log2_power if_True simp_thms) simp
  also have "\<dots> = [1024, 4096, 16384, 65536]"
    by (simp add: upt_0_4)
  finally show ?thesis by simp
qed

lemma not_power_of_two: "\<not> is_power_of_two (2 ^ 53 + 1)"
proof
  assume "is_power_of_two (2 ^ 53 + 1)"
  then obtain k where k: "(2::int) ^ 53 + 1 = 2 ^ k" by (auto simp: is_power_of_two_iff)
  have "odd ((2::int) ^ 53 + 1)" by simp
  with k have "odd ((2::int) ^ k)" by simp
  then have "k = 0" by (cases k) simp_all
  with k show False by simp
qed

section \<open>The closed-form sizer\<close>

text \<open>
  With the exact logarithm the sizer is right: if the ceiling the code takes is the ceiling
  of the real logarithm, the height is the least \<open>h\<close> with \<open>arity ^ h \<ge> leaves\<close>.
\<close>

lemma compute_layout_exact_log:
  assumes "1 \<le> leaves" "2 \<le> arity"
    and "math_ceil (math_log leaves arity) = \<lceil>log (real_of_int arity) (real_of_int leaves)\<rceil>"
  shows "\<exists>s. compute_layout math_log leaves arity = Inr s \<and>
           0 \<le> sizing_height s \<and>
           leaves \<le> arity ^ nat (sizing_height s) \<and>
           (\<forall>h. h < nat (sizing_height s) \<longrightarrow> arity ^ h < leaves) \<and>
           sizing_fullLeaves s = arity ^ nat (sizing_height s) \<and>
           sizing_paddingLeaves s = sizing_fullLeaves s - leaves \<and>
           0 \<le> sizing_paddingLeaves s"
proof -
  define a where "a = real_of_int arity"
  define l where "l = real_of_int leaves"
  define L where "L = log a l"
  define H where "H = \<lceil>L\<rceil>"
  have a1: "1 < a" and l1: "1 \<le> l" using assms by (simp_all add: a_def l_def)
  have L0: "0 \<le> L" unfolding L_def using a1 l1 by simp
  have H0: "0 \<le> H" unfolding H_def using L0 by simp
  have lL: "a powr L = l" unfolding L_def using a1 l1 by (intro powr_log_cancel) simp_all
  have up: "l \<le> a ^ nat H"
  proof -
    have "L \<le> real_of_int H" by (simp add: H_def)
    then have "a powr L \<le> a powr (real_of_int H)" using a1 by (intro powr_mono) simp_all
    also have "real_of_int H = real (nat H)" using H0 by simp
    also have "a powr (real (nat H)) = a ^ nat H" using a1 by (intro powr_realpow) simp
    finally show ?thesis by (simp add: lL)
  qed
  have lo: "a ^ h < l" if "h < nat H" for h
  proof -
    have "int h < H" using that by simp
    then have "int h \<le> H - 1" by simp
    then have "real h \<le> real_of_int (H - 1)" by (metis of_int_le_iff of_int_of_nat_eq)
    also have "real_of_int (H - 1) < L" unfolding H_def by linarith
    finally have "a powr (real h) < a powr L" using a1 by (intro powr_less_mono)
    moreover have "a powr (real h) = a ^ h" using a1 by (intro powr_realpow) simp
    ultimately show ?thesis by (simp add: lL)
  qed
  have up': "leaves \<le> arity ^ nat H"
  proof -
    have "real_of_int leaves \<le> real_of_int (arity ^ nat H)" using up by (simp add: a_def l_def)
    then show ?thesis by (simp only: of_int_le_iff)
  qed
  have lo': "arity ^ h < leaves" if "h < nat H" for h
  proof -
    have "real_of_int (arity ^ h) < real_of_int leaves" using lo [OF that] by (simp add: a_def l_def)
    then show ?thesis by (simp only: of_int_less_iff)
  qed
  have h: "math_ceil (math_log leaves arity) = H"
    using assms(3) by (simp add: H_def L_def a_def l_def)
  show ?thesis
    using assms(1,2) H0 up' lo' by (simp add: compute_layout_def Let_def h)
qed

lemma ceiling_just_above: "\<lceil>(3::rat) + 1 / 2 ^ 51\<rceil> = 4"
  by (rule ceiling_unique) simp_all

section \<open>Claims\<close>

subsection \<open>C9: the level-reduction loop terminates\<close>

text \<open>
  C9. For every \<open>leaves \<ge> 1\<close> and \<open>fanout\<close> among 2, 4, 8 the loop of
  \<^verbatim>\<open>estimate_tree\<close> terminates: the call has a value (\<open>None\<close>, "does not return",
  never occurs), because one pass \<^verbatim>\<open>nodes = math.ceil(nodes / fanout)\<close> strictly decreases
  every value above 1. Up to \<open>2 ^ 1024\<close> leaves that value is a tree shape.
\<close>

theorem estimate_tree_terminates:
  assumes "1 \<le> leaves" "fanout \<in> {2, 4, 8}"
  shows "(\<exists>r. estimate_tree leaves fanout = Some r) \<and>
         (\<forall>nodes. 1 < nodes \<longrightarrow> next_nodes fanout nodes < nodes) \<and>
         (leaves \<le> 2 ^ 1024 \<longrightarrow> (\<exists>t. estimate_tree leaves fanout = Some (Inr t)))"
proof (intro conjI allI impI)
  show "\<exists>r. estimate_tree leaves fanout = Some r"
    using estimate_loop_terminates [OF assms(2,1)] by (simp add: estimate_tree_valid [OF assms])
  show "next_nodes fanout nodes < nodes" if "1 < nodes" for nodes
    using that valid_fanout [OF assms(2)] by (simp add: next_nodes_less)
  show "\<exists>t. estimate_tree leaves fanout = Some (Inr t)" if "leaves \<le> 2 ^ 1024"
    using estimate_loop_returns [OF assms(2,1) that] by (simp add: estimate_tree_valid [OF assms])
qed

theorem estimate_tree_terminates_witness:
  "(1::int) \<le> 1000000 \<and> (2::int) \<in> {2, 4, 8} \<and> (1000000::int) \<le> 2 ^ 1024 \<and>
   (\<exists>t. estimate_tree 1000000 2 = Some (Inr t)) \<and> next_nodes 2 1000000 < 1000000"
proof -
  have a: "(1::int) \<le> 1000000" and b: "(2::int) \<in> {2, 4, 8}" and c: "(1000000::int) \<le> 2 ^ 1024"
    by simp_all
  from estimate_tree_terminates [OF a b] a b c show ?thesis by simp
qed

subsection \<open>C5: which inputs fail\<close>




subsection \<open>C2: the shape of the tree\<close>




subsection \<open>C3: the layout is derived from the tree shape and the hash size\<close>

text \<open>
  C3. Every result of \<^verbatim>\<open>build_layout\<close> has \<open>proofBranchLength = treeHeight\<close>,
  \<open>perProofBytes = (proofBranchLength + 1) * hashBytes\<close>,
  \<open>perProofBits = perProofBytes * 8\<close> and
  \<open>totalCommitmentBytes = totalNodes * hashBytes\<close>, where \<open>hashBytes\<close> is the style's
  hash size; there is a result for every valid input of at most \<open>2 ^ 1024\<close> leaves; and for
  1,000,000 leaves, fanout 2 and the aztec style (32 bytes) the height is 20 and a proof
  takes 672 bytes.
\<close>

theorem build_layout_arithmetic:
  "(build_layout style leaves fanout = Some (Inr r) \<longrightarrow>
      layout_proofBranchLength r = layout_treeHeight r \<and>
      layout_hashBytes r = style_hash_bytes style \<and>
      layout_perProofBytes r = (layout_proofBranchLength r + 1) * layout_hashBytes r \<and>
      layout_perProofBits r = layout_perProofBytes r * 8 \<and>
      layout_totalCommitmentBytes r = layout_totalNodes r * layout_hashBytes r) \<and>
   (1 \<le> leaves \<and> leaves \<le> 2 ^ 1024 \<and> fanout \<in> {2, 4, 8} \<longrightarrow>
      (\<exists>r. build_layout style leaves fanout = Some (Inr r))) \<and>
   (\<exists>r. build_layout aztec 1000000 2 = Some (Inr r) \<and> layout_hashBytes r = 32 \<and>
        layout_treeHeight r = 20 \<and> layout_perProofBytes r = 672)"
proof (intro conjI impI)
  assume "build_layout style leaves fanout = Some (Inr r)"
  then obtain t where "estimate_tree leaves fanout = Some (Inr t)"
    and r: "r = \<lparr>layout_style = style_key style, layout_styleName = style_name style,
                 layout_note = style_note style, layout_leaves = leaves, layout_fanout = fanout,
                 layout_treeHeight = tree_height t, layout_totalNodes = tree_totalNodes t,
                 layout_nodesPerLevel = tree_nodesPerLevel t, layout_hashBytes = style_hash_bytes style,
                 layout_proofBranchLength = tree_height t,
                 layout_perProofBytes = (tree_height t + 1) * style_hash_bytes style,
                 layout_perProofBits = (tree_height t + 1) * style_hash_bytes style * 8,
                 layout_totalCommitmentBytes = tree_totalNodes t * style_hash_bytes style\<rparr>"
    by (auto simp: build_layout_def Let_def split: option.splits sum.splits)
  show "layout_proofBranchLength r = layout_treeHeight r" by (simp add: r)
  show "layout_hashBytes r = style_hash_bytes style" by (simp add: r)
  show "layout_perProofBytes r = (layout_proofBranchLength r + 1) * layout_hashBytes r" by (simp add: r)
  show "layout_perProofBits r = layout_perProofBytes r * 8" by (simp add: r)
  show "layout_totalCommitmentBytes r = layout_totalNodes r * layout_hashBytes r" by (simp add: r)
next
  assume "1 \<le> leaves \<and> leaves \<le> 2 ^ 1024 \<and> fanout \<in> {2, 4, 8}"
  then obtain t where "estimate_tree leaves fanout = Some (Inr t)"
    using estimate_loop_returns [of fanout leaves 0 0 "[]"] by (auto simp: estimate_tree_valid)
  then show "\<exists>r. build_layout style leaves fanout = Some (Inr r)"
    by (simp add: build_layout_def Let_def)
next
  show "\<exists>r. build_layout aztec 1000000 2 = Some (Inr r) \<and> layout_hashBytes r = 32 \<and>
        layout_treeHeight r = 20 \<and> layout_perProofBytes r = 672"
    by (simp add: build_layout_def estimate_tree_million Let_def aztec_def)
qed

theorem build_layout_arithmetic_witness:
  "(1::int) \<le> 1000000 \<and> (1000000::int) \<le> 2 ^ 1024 \<and> (2::int) \<in> {2, 4, 8} \<and>
   (\<exists>r. build_layout aztec 1000000 2 = Some (Inr r) \<and>
        layout_proofBranchLength r = layout_treeHeight r \<and>
        layout_perProofBytes r = (layout_proofBranchLength r + 1) * layout_hashBytes r \<and>
        layout_perProofBits r = layout_perProofBytes r * 8 \<and>
        layout_totalCommitmentBytes r = layout_totalNodes r * layout_hashBytes r \<and>
        layout_treeHeight r = 20 \<and> layout_perProofBytes r = 672)"
proof -
  obtain r where r: "build_layout aztec 1000000 2 = Some (Inr r)" "layout_hashBytes r = 32"
    "layout_treeHeight r = 20" "layout_perProofBytes r = 672"
    using build_layout_arithmetic [of aztec 1000000 2] by blast
  from build_layout_arithmetic [of aztec 1000000 2 r] r show ?thesis by simp
qed

subsection \<open>C4: a larger fanout never costs more\<close>

text \<open>
  C4. For a fixed leaf count \<open>leaves \<ge> 1\<close> and a fixed style, if
  \<open>fanout1 \<le> fanout2\<close> are both among 2, 4, 8, then the layout for \<open>fanout2\<close> has a
  tree height and a total commitment size that are at most those of the layout for
  \<open>fanout1\<close>. A style's hash size is a number of bytes: the theorem needs that it is not
  negative, and every catalog style's is positive (\<open>STYLES_hash_positive\<close>).
\<close>

theorem fanout_monotone:
  assumes "1 \<le> leaves" "fanout1 \<in> {2, 4, 8}" "fanout2 \<in> {2, 4, 8}" "fanout1 \<le> fanout2"
    and "0 \<le> style_hash_bytes style"
    and "build_layout style leaves fanout1 = Some (Inr r1)"
    and "build_layout style leaves fanout2 = Some (Inr r2)"
  shows "layout_treeHeight r2 \<le> layout_treeHeight r1 \<and>
         layout_totalCommitmentBytes r2 \<le> layout_totalCommitmentBytes r1"
proof -
  from assms(6) obtain t1 where t1: "estimate_tree leaves fanout1 = Some (Inr t1)"
    and r1: "layout_treeHeight r1 = tree_height t1"
      "layout_totalCommitmentBytes r1 = tree_totalNodes t1 * style_hash_bytes style"
    by (auto simp: build_layout_def Let_def split: option.splits sum.splits)
  from assms(7) obtain t2 where t2: "estimate_tree leaves fanout2 = Some (Inr t2)"
    and r2: "layout_treeHeight r2 = tree_height t2"
      "layout_totalCommitmentBytes r2 = tree_totalNodes t2 * style_hash_bytes style"
    by (auto simp: build_layout_def Let_def split: option.splits sum.splits)
  have l1: "estimate_loop fanout1 leaves 0 0 [] = Some (Inr t1)"
    using t1 by (simp add: estimate_tree_valid [OF assms(1,2)])
  have l2: "estimate_loop fanout2 leaves 0 0 [] = Some (Inr t2)"
    using t2 by (simp add: estimate_tree_valid [OF assms(1,3)])
  from estimate_loop_compare [OF assms(2,3,4,1)] assms(1) l1 l2
  have "tree_height t2 - 0 \<le> tree_height t1 - 0 \<and> tree_totalNodes t2 - 0 \<le> tree_totalNodes t1 - 0"
    by blast
  then show ?thesis
    using assms(5) by (simp add: r1 r2 mult_right_mono)
qed

theorem fanout_monotone_witness:
  "(1::int) \<le> 5 \<and> (2::int) \<in> {2, 4, 8} \<and> (4::int) \<in> {2, 4, 8} \<and> (2::int) \<le> 4 \<and>
   0 \<le> style_hash_bytes aztec \<and>
   (\<exists>r1 r2. build_layout aztec 5 2 = Some (Inr r1) \<and> build_layout aztec 5 4 = Some (Inr r2) \<and>
      layout_treeHeight r1 = 3 \<and> layout_treeHeight r2 = 2 \<and>
      layout_totalCommitmentBytes r1 = 352 \<and> layout_totalCommitmentBytes r2 = 256 \<and>
      layout_treeHeight r2 \<le> layout_treeHeight r1 \<and>
      layout_totalCommitmentBytes r2 \<le> layout_totalCommitmentBytes r1)"
proof -
  have a: "(1::int) \<le> 5" and b: "(2::int) \<in> {2, 4, 8}" and c: "(4::int) \<in> {2, 4, 8}"
    and d: "(2::int) \<le> 4" and e: "0 \<le> style_hash_bytes aztec"
    by (simp_all add: aztec_def)
  have t2: "estimate_tree 5 2 =
     Some (Inr \<lparr>tree_height = 3, tree_totalNodes = 11, tree_nodesPerLevel = [5, 3, 2, 1]\<rparr>)"
    by (simp add: estimate_tree_def estimate_loop_exact_step estimate_loop_done)
  have t4: "estimate_tree 5 4 =
     Some (Inr \<lparr>tree_height = 2, tree_totalNodes = 8, tree_nodesPerLevel = [5, 2, 1]\<rparr>)"
    by (simp add: estimate_tree_def estimate_loop_exact_step estimate_loop_done)
  obtain r1 where r1: "build_layout aztec 5 2 = Some (Inr r1)" "layout_treeHeight r1 = 3"
    "layout_totalCommitmentBytes r1 = 352"
    by (simp add: build_layout_def t2 Let_def aztec_def)
  obtain r2 where r2: "build_layout aztec 5 4 = Some (Inr r2)" "layout_treeHeight r2 = 2"
    "layout_totalCommitmentBytes r2 = 256"
    by (simp add: build_layout_def t4 Let_def aztec_def)
  from fanout_monotone [OF a b c d e r1(1) r2(1)] a b c d e r1 r2 show ?thesis by blast
qed

subsection \<open>C6: the selector returns the first minimum\<close>



subsection \<open>C7: a missing metric is the worst value\<close>

text \<open>
  C7. A candidate whose dictionary lacks the metric gets the value \<^verbatim>\<open>float("inf")\<close>, and
  whenever some candidate has the metric, the candidate selected has it too.
\<close>

theorem missing_metric_never_best:
  "(data metric = None \<longrightarrow> metric_value data metric = Inr Inf) \<and>
   (choose_best layouts metric = Inr best \<and>
    (\<exists>lr \<in> set layouts. result_data lr metric \<noteq> None) \<longrightarrow>
      result_data best metric \<noteq> None)"
proof (intro conjI impI)
  assume "data metric = None"
  then show "metric_value data metric = Inr Inf" by (rule metric_value_absent)
next
  assume a: "choose_best layouts metric = Inr best \<and>
    (\<exists>lr \<in> set layouts. result_data lr metric \<noteq> None)"
  then obtain i v where fm: "is_first_min (\<lambda>lr. metric_value (result_data lr) metric) layouts i v"
    and b: "layouts ! i = best"
    using choose_best_first_min by blast
  from a obtain lr val where lr: "lr \<in> set layouts" "result_data lr metric = Some val" by auto
  then obtain j where j: "j < length layouts" "layouts ! j = lr" by (auto simp: in_set_conv_nth)
  with fm obtain w where w: "metric_value (result_data lr) metric = Inr w" "\<not> float_less w v"
    unfolding is_first_min_def by blast
  from metric_value_present [OF lr(2) w(1)] obtain x where x: "w = Finite x" ..
  show "result_data best metric \<noteq> None"
  proof
    assume "result_data best metric = None"
    then have "metric_value (result_data best) metric = Inr Inf" by (rule metric_value_absent)
    moreover have "metric_value (result_data best) metric = Inr v"
      using fm b unfolding is_first_min_def by auto
    ultimately have "v = Inf" by simp
    with w x show False by simp
  qed
qed

theorem missing_metric_never_best_witness:
  "Map.empty ''treeHeight'' = (None :: int option) \<and>
   metric_value Map.empty ''treeHeight'' = Inr Inf \<and>
   choose_best [\<lparr>result_fanout = 2, result_data = Map.empty\<rparr>,
                \<lparr>result_fanout = 4, result_data = [''treeHeight'' \<mapsto> 10]\<rparr>] ''treeHeight'' =
     Inr \<lparr>result_fanout = 4, result_data = [''treeHeight'' \<mapsto> 10]\<rparr> \<and>
   result_data \<lparr>result_fanout = 4, result_data = [''treeHeight'' \<mapsto> 10]\<rparr> ''treeHeight'' \<noteq> None"
proof -
  have m: "metric_value [''treeHeight'' \<mapsto> 10] ''treeHeight'' = Inr (Finite 10)"
    using metric_value_exact [of "[''treeHeight'' \<mapsto> 10]" "''treeHeight''" 10] by simp
  have best: "choose_best [\<lparr>result_fanout = 2, result_data = Map.empty\<rparr>,
                \<lparr>result_fanout = 4, result_data = [''treeHeight'' \<mapsto> 10]\<rparr>] ''treeHeight'' =
     Inr \<lparr>result_fanout = 4, result_data = [''treeHeight'' \<mapsto> 10]\<rparr>"
    by (simp add: choose_best_def py_min_def m metric_value_absent)
  from missing_metric_never_best [of Map.empty "''treeHeight''"
      "[\<lparr>result_fanout = 2, result_data = Map.empty\<rparr>,
        \<lparr>result_fanout = 4, result_data = [''treeHeight'' \<mapsto> 10]\<rparr>]"
      "\<lparr>result_fanout = 4, result_data = [''treeHeight'' \<mapsto> 10]\<rparr>"] best
  show ?thesis by simp
qed

subsection \<open>C8: the leaf-count sequence\<close>

text \<open>
  C8 asks for doubling from \<open>leafMin\<close> unless both ends are exact powers of two. The code
  tests \<^verbatim>\<open>math.log2(n).is_integer()\<close>. \<open>2 ^ 53 + 1\<close> is not a power of two, but
  \<^verbatim>\<open>math.log2(2**53 + 1)\<close> is \<open>53.0\<close> (the integer is rounded to the float \<open>2 ^ 53\<close>
  first), and \<^verbatim>\<open>math.log2(2**54)\<close> is \<open>54.0\<close>. With these two values, for the range from
  \<open>2 ^ 53 + 1\<close> to \<open>2 ^ 54\<close> and step 1 the code returns \<open>[2 ^ 53, 2 ^ 54]\<close>, where
  the claim's sequence is \<open>[2 ^ 53 + 1]\<close>.
\<close>

theorem generate_leaf_counts_misjudges_endpoint:
  assumes "math_log2 (2 ^ 53 + 1) = 53" "math_log2 (2 ^ 54) = 54"
  shows "generate_leaf_counts math_log2 (2 ^ 53 + 1) (2 ^ 54) 1 = Some (Inr [2 ^ 53, 2 ^ 54]) \<and>
         \<not> is_power_of_two (2 ^ 53 + 1) \<and>
         spec_leaf_counts (2 ^ 53 + 1) (2 ^ 54) 1 = [2 ^ 53 + 1]"
proof (intro conjI)
  have i: "is_integer 53" "is_integer 54" "int_of_float 53 = 53" "int_of_float 54 = 54"
    by (simp_all add: is_integer_def int_of_float_def)
  have "power_loop 54 1 53 [] = Some [2 ^ 53, 2 ^ 54]"
    by (subst power_loop_eq) (simp_all add: upt_0_2)
  then show "generate_leaf_counts math_log2 (2 ^ 53 + 1) (2 ^ 54) 1 = Some (Inr [2 ^ 53, 2 ^ 54])"
    using assms by (simp add: generate_leaf_counts_def i)
  show "\<not> is_power_of_two (2 ^ 53 + 1)" by (rule not_power_of_two)
  have "(2::int) ^ 54 div (2 ^ 53 + 1) = 1" by simp
  then show "spec_leaf_counts (2 ^ 53 + 1) (2 ^ 54) 1 = [2 ^ 53 + 1]"
    using not_power_of_two by (simp add: spec_leaf_counts_def bitlen_1)
qed

theorem generate_leaf_counts_misjudges_endpoint_witness:
  "generate_leaf_counts (\<lambda>n. if n = 2 ^ 54 then 54 else 53) (2 ^ 53 + 1) (2 ^ 54) 1 =
     Some (Inr [2 ^ 53, 2 ^ 54]) \<and>
   spec_leaf_counts (2 ^ 53 + 1) (2 ^ 54) 1 = [2 ^ 53 + 1]"
  using generate_leaf_counts_misjudges_endpoint [of "\<lambda>n. if n = 2 ^ 54 then 54 else 53"]
  by simp

subsection \<open>C10: the leaf counts stay in the requested range\<close>

text \<open>
  C10 asks that every generated count lies between \<open>leafMin\<close> and \<open>leafMax\<close>. For
  \<open>leafMin = leafMax = 2 ^ 53 + 1\<close> and step 1, with \<^verbatim>\<open>math.log2(2**53 + 1)\<close> being
  \<open>53.0\<close>, the code returns the single count \<open>2 ^ 53\<close>, which is below \<open>leafMin\<close>.
\<close>

theorem generate_leaf_counts_below_leaf_min:
  assumes "math_log2 (2 ^ 53 + 1) = 53"
  shows "generate_leaf_counts math_log2 (2 ^ 53 + 1) (2 ^ 53 + 1) 1 = Some (Inr [2 ^ 53]) \<and>
         (2::int) ^ 53 < 2 ^ 53 + 1"
proof -
  have i: "is_integer 53" "int_of_float 53 = 53"
    by (simp_all add: is_integer_def int_of_float_def)
  have "power_loop 53 1 53 [] = Some [2 ^ 53]"
    by (subst power_loop_eq) simp_all
  then show ?thesis
    using assms by (simp add: generate_leaf_counts_def i)
qed

theorem generate_leaf_counts_below_leaf_min_witness:
  "generate_leaf_counts (\<lambda>n. 53) (2 ^ 53 + 1) (2 ^ 53 + 1) 1 = Some (Inr [2 ^ 53]) \<and>
   (2::int) ^ 53 < 2 ^ 53 + 1"
  using generate_leaf_counts_below_leaf_min [of "\<lambda>n. 53"] by simp

subsection \<open>C1: the height of the closed-form sizer\<close>

text \<open>
  C1 asks for the least \<open>h\<close> with \<open>arity ^ h \<ge> leaves\<close>, computed exactly. The code takes
  \<^verbatim>\<open>math.ceil(math.log(leaves, arity))\<close>. For 125 leaves and arity 5 the float
  \<^verbatim>\<open>math.log(125, 5)\<close> is \<open>3.0000000000000004\<close>, one unit in the last place above 3, that
  is \<open>3 + 1 / 2 ^ 51\<close>; then the code returns height 4, 625 full leaves and 500 padding
  leaves, although \<open>5 ^ 3 = 125\<close> already holds the leaves.
\<close>

theorem compute_layout_log_off_by_one:
  assumes "math_log 125 5 = 3 + 1 / 2 ^ 51"
  shows "compute_layout math_log 125 5 =
           Inr \<lparr>sizing_leaves = 125, sizing_arity = 5, sizing_height = 4,
                sizing_fullLeaves = 625, sizing_paddingLeaves = 500, sizing_totalNodes = 781,
                sizing_internalNodes = 156, sizing_leafNodes = 625\<rparr> \<and>
         (125::int) \<le> 5 ^ 3"
proof -
  have h: "math_ceil (math_log 125 5) = 4"
    unfolding math_ceil_def assms by (rule ceiling_just_above)
  show ?thesis by (simp add: compute_layout_def Let_def h)
qed

theorem compute_layout_log_off_by_one_witness:
  "compute_layout (\<lambda>leaves arity. 3 + 1 / 2 ^ 51) 125 5 =
     Inr \<lparr>sizing_leaves = 125, sizing_arity = 5, sizing_height = 4,
          sizing_fullLeaves = 625, sizing_paddingLeaves = 500, sizing_totalNodes = 781,
          sizing_internalNodes = 156, sizing_leafNodes = 625\<rparr> \<and>
   (125::int) \<le> 5 ^ 3"
  using compute_layout_log_off_by_one [of "\<lambda>leaves arity. 3 + 1 / 2 ^ 51"] by simp

end
